theory Spec2Isabelle
  imports Main "HOL-Library.Word"
begin

unbundle bit_operations_syntax

section \<open>JavaScript values used by the ASN.1 DER codec\<close>

text \<open>
  A \<open>Uint8Array\<close> is a list of bytes. A JavaScript string is a list of UTF-16 code
  units, which is what \<open>length\<close>, \<open>substring\<close> and \<open>padStart\<close> count. The numbers
  the codec computes with (lengths, offsets, loop counters) are integers; the bitwise
  operators first convert their operands to 32 bits, which is written out below.
\<close>

type_synonym byte = "8 word"
type_synonym code_unit = "16 word"
type_synonym js_string = "code_unit list"

text \<open>String literals of the development: every ASCII character is one code unit.\<close>

definition js_str :: "string \<Rightarrow> js_string" where
  "js_str s = map (\<lambda>c. of_nat (of_char c)) s"

text \<open>
  The exceptions of the module, one constructor per \<open>throw\<close> site. \<open>TypeError\<close> is the
  exception raised when \<open>decodeInteger\<close> builds its message from an undefined element
  (\<open>data[offset].toString(16)\<close>).
\<close>

datatype error =
    InvalidHexLength          \<comment> \<open>Invalid hex string length\<close>
  | OffsetOutOfBounds         \<comment> \<open>Offset out of bounds\<close>
  | UnsupportedLongForm       \<comment> \<open>Invalid or unsupported long form length\<close>
  | LengthBytesOutOfBounds    \<comment> \<open>Length bytes out of bounds\<close>
  | ExpectedIntegerTag        \<comment> \<open>Expected INTEGER tag (0x02), got 0x..\<close>
  | IntegerOutOfBounds        \<comment> \<open>Integer value out of bounds\<close>
  | ExpectedSequenceTag       \<comment> \<open>Expected SEQUENCE tag\<close>
  | SequenceOutOfBounds       \<comment> \<open>Sequence content out of bounds\<close>
  | InvalidSignature          \<comment> \<open>Invalid signature: expected 2 elements (r, s)\<close>
  | RawStringLength           \<comment> \<open>Raw signature string must be 128 hex chars\<close>
  | RawBytesLength            \<comment> \<open>Raw signature bytes must be 64 bytes\<close>
  | TypeError

subsection \<open>Numbers and bitwise operators\<close>

definition ToInt32 :: "int \<Rightarrow> int" where
  "ToInt32 x = signed_take_bit 31 x"

definition ToUint32 :: "int \<Rightarrow> int" where
  "ToUint32 x = take_bit 32 x"

text \<open>\<open>a & b\<close>, \<open>a | b\<close>, \<open>a << k\<close> and \<open>a >>> k\<close>.\<close>

definition js_and :: "int \<Rightarrow> int \<Rightarrow> int" where
  "js_and a b = ToInt32 a AND ToInt32 b"

definition js_or :: "int \<Rightarrow> int \<Rightarrow> int" where
  "js_or a b = ToInt32 a OR ToInt32 b"

definition js_shl :: "int \<Rightarrow> nat \<Rightarrow> int" where
  "js_shl a k = ToInt32 (push_bit (k mod 32) (ToInt32 a))"

definition js_ushr :: "int \<Rightarrow> nat \<Rightarrow> int" where
  "js_ushr a k = drop_bit (k mod 32) (ToUint32 a)"

text \<open>Storing a number into a \<open>Uint8Array\<close> element keeps it modulo 256.\<close>

definition ToUint8 :: "int \<Rightarrow> byte" where
  "ToUint8 x = word_of_int x"

subsection \<open>Typed arrays\<close>

text \<open>\<open>data[i]\<close>: \<open>None\<close> is \<open>undefined\<close>, the value of a read outside the array.\<close>

definition get :: "byte list \<Rightarrow> int \<Rightarrow> byte option" where
  "get data i = (if 0 \<le> i \<and> i < int (length data) then Some (data ! nat i) else None)"

text \<open>
  An element used as an operand of a bitwise operator: \<open>undefined\<close> converts to
  \<open>NaN\<close> and then to 0.
\<close>

definition elem_bits :: "byte option \<Rightarrow> int" where
  "elem_bits x = (case x of None \<Rightarrow> 0 | Some b \<Rightarrow> uint b)"

text \<open>\<open>x < n\<close> on an element: a comparison with \<open>undefined\<close> is false.\<close>

definition elem_less :: "byte option \<Rightarrow> int \<Rightarrow> bool" where
  "elem_less x n = (case x of None \<Rightarrow> False | Some b \<Rightarrow> uint b < n)"

text \<open>
  \<open>data.subarray(begin, end)\<close>: a negative index counts from the end, both indices are
  clamped to the array, and an empty range gives the empty array.
\<close>

definition rel_index :: "nat \<Rightarrow> int \<Rightarrow> int" where
  "rel_index n i = (if i < 0 then max (int n + i) 0 else min i (int n))"

definition subarray :: "byte list \<Rightarrow> int \<Rightarrow> int \<Rightarrow> byte list" where
  "subarray data begin end =
     (let b = rel_index (length data) begin;
          e = rel_index (length data) end
      in take (nat (max (e - b) 0)) (drop (nat b) data))"

text \<open>\<open>data.subarray(begin)\<close>: the end defaults to the length.\<close>

definition subarray_from :: "byte list \<Rightarrow> int \<Rightarrow> byte list" where
  "subarray_from data begin = subarray data begin (int (length data))"

subsection \<open>Strings\<close>

text \<open>\<open>s.padStart(n, c)\<close> with a one-character filler.\<close>

definition padStart :: "js_string \<Rightarrow> nat \<Rightarrow> code_unit \<Rightarrow> js_string" where
  "padStart s n c = replicate (n - length s) c @ s"

text \<open>\<open>s.substring(a, b)\<close> for \<open>0 \<le> a \<le> b\<close>; \<open>b\<close> is clamped to the length.\<close>

definition substring :: "js_string \<Rightarrow> nat \<Rightarrow> nat \<Rightarrow> js_string" where
  "substring s a b = take (b - a) (drop a s)"

text \<open>The digit of a value below 16, as \<open>Number.prototype.toString(16)\<close> writes it.\<close>

definition hexDigit :: "nat \<Rightarrow> code_unit" where
  "hexDigit d = (if d < 10 then of_nat (48 + d) else of_nat (87 + d))"

fun toString16 :: "nat \<Rightarrow> js_string" where
  "toString16 n = (if n < 16 then [hexDigit n] else toString16 (n div 16) @ [hexDigit (n mod 16)])"

text \<open>
  \<open>parseInt(s, 16)\<close>: leading white space is skipped, one sign is read, a \<open>0x\<close> or
  \<open>0X\<close> prefix is dropped, and the longest prefix of hexadecimal digits is the value;
  \<open>None\<close> is \<open>NaN\<close>, the result when that prefix is empty.
\<close>

definition isWhiteSpace :: "code_unit \<Rightarrow> bool" where
  "isWhiteSpace c \<longleftrightarrow>
     c \<in> {0x09, 0x0A, 0x0B, 0x0C, 0x0D, 0x20, 0xA0, 0x1680, 0x2028, 0x2029,
          0x202F, 0x205F, 0x3000, 0xFEFF} \<or> (0x2000 \<le> c \<and> c \<le> 0x200A)"

definition digitValue :: "code_unit \<Rightarrow> nat option" where
  "digitValue c =
     (if 0x30 \<le> c \<and> c \<le> 0x39 then Some (unat c - 48)
      else if 0x61 \<le> c \<and> c \<le> 0x66 then Some (unat c - 87)
      else if 0x41 \<le> c \<and> c \<le> 0x46 then Some (unat c - 55)
      else None)"

definition isHexDigit :: "code_unit \<Rightarrow> bool" where
  "isHexDigit c \<longleftrightarrow> digitValue c \<noteq> None"

fun digitsValue :: "nat \<Rightarrow> js_string \<Rightarrow> nat" where
  "digitsValue acc [] = acc"
| "digitsValue acc (c # cs) =
     (case digitValue c of None \<Rightarrow> acc | Some d \<Rightarrow> digitsValue (16 * acc + d) cs)"

definition parseInt16 :: "js_string \<Rightarrow> int option" where
  "parseInt16 str =
     (let s = dropWhile isWhiteSpace str;
          sign = (if s \<noteq> [] \<and> hd s = 0x2D then - 1 else 1 :: int);
          s = (if s \<noteq> [] \<and> (hd s = 0x2B \<or> hd s = 0x2D) then tl s else s);
          s = (if length s \<ge> 2 \<and> hd s = 0x30 \<and> (hd (tl s) = 0x78 \<or> hd (tl s) = 0x58)
               then drop 2 s else s);
          z = takeWhile isHexDigit s
      in if z = [] then None else Some (sign * int (digitsValue 0 z)))"

text \<open>Storing the result of \<open>parseInt\<close> into a \<open>Uint8Array\<close>: \<open>NaN\<close> is stored as 0.\<close>

definition store_number :: "int option \<Rightarrow> byte" where
  "store_number v = (case v of None \<Rightarrow> 0 | Some n \<Rightarrow> ToUint8 n)"

section \<open>The Hex helper\<close>

definition byteToHex :: "byte \<Rightarrow> js_string" where
  "byteToHex b = padStart (toString16 (unat b)) 2 0x30"

definition Hex_encode :: "byte list \<Rightarrow> js_string" where
  "Hex_encode bytes = concat (map byteToHex bytes)"

definition Hex_decode :: "js_string \<Rightarrow> error + byte list" where
  "Hex_decode hex =
     (if length hex mod 2 \<noteq> 0 then Inl InvalidHexLength
      else let len = length hex div 2
           in Inr (map (\<lambda>i. store_number (parseInt16 (substring hex (i * 2) (i * 2 + 2))))
                       [0..<len]))"

section \<open>DER lengths\<close>

function byteCount_loop :: "int \<Rightarrow> int \<Rightarrow> int" where
  "byteCount_loop temp byteCount =
     (if temp > 0 then byteCount_loop (js_ushr temp 8) (byteCount + 1) else byteCount)"
  by pat_completeness auto

termination byteCount_loop
proof (relation "measure (\<lambda>(temp, byteCount). nat temp)")
  show "wf (measure (\<lambda>(temp, byteCount). nat temp))" by simp
next
  fix temp byteCount :: int
  assume pos: "0 < temp"
  have le: "take_bit 32 temp \<le> temp"
    using pos by (simp add: take_bit_int_less_eq_self_iff)
  have nn: "0 \<le> take_bit 32 temp" by simp
  have "take_bit 32 temp div 256 < temp"
  proof (cases "take_bit 32 temp = 0")
    case True
    then show ?thesis using pos by simp
  next
    case False
    then have "0 < take_bit 32 temp" using nn by linarith
    then have "take_bit 32 temp div 256 < take_bit 32 temp" by simp
    then show ?thesis using le by linarith
  qed
  then have "js_ushr temp 8 < temp"
    by (simp add: js_ushr_def ToUint32_def drop_bit_eq_div)
  then show "((js_ushr temp 8, byteCount + 1), (temp, byteCount))
               \<in> measure (\<lambda>(temp, byteCount). nat temp)"
    using pos by simp
qed

function fill_loop :: "int \<Rightarrow> int \<Rightarrow> byte list \<Rightarrow> byte list" where
  "fill_loop i temp result =
     (if i > 0
      then fill_loop (i - 1) (js_ushr temp 8) (result[nat i := ToUint8 (js_and temp 0xff)])
      else result)"
  by pat_completeness auto

termination fill_loop
  by (relation "measure (\<lambda>(i, temp, result). nat i)") auto

definition encodeLength :: "int \<Rightarrow> byte list" where
  "encodeLength len =
     (if len < 128 then [ToUint8 len]
      else let byteCount = byteCount_loop len 0;
               result = replicate (nat (byteCount + 1)) 0;
               result = result[0 := ToUint8 (js_or 0x80 byteCount)]
           in fill_loop byteCount len result)"

function length_loop :: "byte list \<Rightarrow> int \<Rightarrow> int \<Rightarrow> int \<Rightarrow> int \<Rightarrow> int" where
  "length_loop data offset numBytes i len =
     (if i < numBytes
      then length_loop data offset numBytes (i + 1)
             (js_or (js_shl len 8) (elem_bits (get data (offset + 1 + i))))
      else len)"
  by pat_completeness auto

termination length_loop
  by (relation "measure (\<lambda>(data, offset, numBytes, i, len). nat (numBytes - i))") auto

text \<open>The result is the pair \<open>(length, bytesRead)\<close>.\<close>

definition decodeLength :: "byte list \<Rightarrow> int \<Rightarrow> error + (int \<times> int)" where
  "decodeLength data offset =
     (if offset \<ge> int (length data) then Inl OffsetOutOfBounds
      else let firstByte = get data offset
           in if elem_less firstByte 128 then Inr (elem_bits firstByte, 1)
              else let numBytes = js_and (elem_bits firstByte) 0x7f
                   in if numBytes = 0 \<or> numBytes > 4 then Inl UnsupportedLongForm
                      else if offset + 1 + numBytes > int (length data)
                           then Inl LengthBytesOutOfBounds
                           else Inr (length_loop data offset numBytes 0 0, 1 + numBytes))"

section \<open>INTEGER\<close>

text \<open>An argument of type \<open>string | Uint8Array\<close>.\<close>

datatype hex_or_bytes = Str js_string | Bytes "byte list"

function strip_loop :: "byte list \<Rightarrow> int \<Rightarrow> int" where
  "strip_loop bytes start =
     (if start < int (length bytes) - 1 \<and> get bytes start = Some 0
      then strip_loop bytes (start + 1) else start)"
  by pat_completeness auto

termination strip_loop
  by (relation "measure (\<lambda>(bytes, start). nat (int (length bytes) - start))") auto

text \<open>The body of \<open>encodeInteger\<close> once the argument is a byte array.\<close>

definition encodeInteger_bytes :: "byte list \<Rightarrow> byte list" where
  "encodeInteger_bytes bytes0 =
     (let start = strip_loop bytes0 0;
          bytes = (if start > 0 then subarray_from bytes0 start else bytes0);
          needPadding = (js_and (elem_bits (get bytes 0)) 0x80 \<noteq> 0);
          contentLen = int (length bytes) + (if needPadding then 1 else 0);
          lengthBytes = encodeLength contentLen
      in [0x02] @ lengthBytes @ (if needPadding then [0x00] else []) @ bytes)"

definition encodeInteger :: "hex_or_bytes \<Rightarrow> error + byte list" where
  "encodeInteger v =
     (case v of
        Str hex \<Rightarrow> (case Hex_decode hex of Inl e \<Rightarrow> Inl e
                                         | Inr bytes \<Rightarrow> Inr (encodeInteger_bytes bytes))
      | Bytes bytes \<Rightarrow> Inr (encodeInteger_bytes bytes))"

text \<open>The result is the pair \<open>(value, bytesRead)\<close>.\<close>

definition decodeInteger :: "byte list \<Rightarrow> int \<Rightarrow> error + (byte list \<times> int)" where
  "decodeInteger data offset =
     (if get data offset \<noteq> Some 0x02
      then (if get data offset = None then Inl TypeError else Inl ExpectedIntegerTag)
      else case decodeLength data (offset + 1) of
             Inl e \<Rightarrow> Inl e
           | Inr (len, lengthBytes) \<Rightarrow>
               let start = offset + 1 + lengthBytes;
                   end = start + len
               in if end > int (length data) then Inl IntegerOutOfBounds
                  else let v = subarray data start end;
                           v = (if length v > 1 \<and> get v 0 = Some 0x00
                                then subarray_from v 1 else v)
                       in Inr (v, 1 + lengthBytes + len))"

section \<open>SEQUENCE\<close>

definition encodeSequence :: "byte list list \<Rightarrow> byte list" where
  "encodeSequence elements =
     (let contentLength = (\<Sum>el\<leftarrow>elements. int (length el));
          lengthBytes = encodeLength contentLength
      in [0x30] @ lengthBytes @ concat elements)"

text \<open>
  The loop over the elements of a sequence. A decoded element length can be negative
  (see \<open>decodeLength\<close>), so \<open>pos\<close> need not advance and the loop need not end:
  \<open>None\<close> is the run that never returns.
\<close>

partial_function (option) elements_loop ::
  "byte list \<Rightarrow> int \<Rightarrow> int \<Rightarrow> byte list list \<Rightarrow> (error + byte list list) option" where
  "elements_loop data contentEnd pos elements =
     (if pos < contentEnd
      then (case decodeLength data (pos + 1) of
              Inl e \<Rightarrow> Some (Inl e)
            | Inr (elemLength, elemLengthBytes) \<Rightarrow>
                (let elemTotalLength = 1 + elemLengthBytes + elemLength
                 in elements_loop data contentEnd (pos + elemTotalLength)
                      (elements @ [subarray data pos (pos + elemTotalLength)])))
      else Some (Inr elements))"

declare elements_loop.simps [code]

text \<open>The result is the pair \<open>(elements, bytesRead)\<close>.\<close>

definition decodeSequence ::
  "byte list \<Rightarrow> int \<Rightarrow> (error + (byte list list \<times> int)) option" where
  "decodeSequence data offset =
     (if get data offset \<noteq> Some 0x30 then Some (Inl ExpectedSequenceTag)
      else case decodeLength data (offset + 1) of
             Inl e \<Rightarrow> Some (Inl e)
           | Inr (len, lengthBytes) \<Rightarrow>
               let contentStart = offset + 1 + lengthBytes;
                   contentEnd = contentStart + len
               in if contentEnd > int (length data) then Some (Inl SequenceOutOfBounds)
                  else (case elements_loop data contentEnd contentStart [] of
                          None \<Rightarrow> None
                        | Some (Inl e) \<Rightarrow> Some (Inl e)
                        | Some (Inr elements) \<Rightarrow>
                            Some (Inr (elements, 1 + lengthBytes + len))))"

section \<open>Signatures\<close>

definition encodeSignature :: "hex_or_bytes \<Rightarrow> hex_or_bytes \<Rightarrow> error + byte list" where
  "encodeSignature r s =
     (case encodeInteger r of
        Inl e \<Rightarrow> Inl e
      | Inr rEncoded \<Rightarrow>
          (case encodeInteger s of
             Inl e \<Rightarrow> Inl e
           | Inr sEncoded \<Rightarrow> Inr (encodeSequence [rEncoded, sEncoded])))"

text \<open>The result is the pair \<open>(r, s)\<close> of hexadecimal strings.\<close>

definition decodeSignature :: "byte list \<Rightarrow> (error + (js_string \<times> js_string)) option" where
  "decodeSignature signature =
     (case decodeSequence signature 0 of
        None \<Rightarrow> None
      | Some (Inl e) \<Rightarrow> Some (Inl e)
      | Some (Inr (elements, bytesRead)) \<Rightarrow>
          if length elements \<noteq> 2 then Some (Inl InvalidSignature)
          else (case decodeInteger (elements ! 0) 0 of
                  Inl e \<Rightarrow> Some (Inl e)
                | Inr (rBytes, rRead) \<Rightarrow>
                    (case decodeInteger (elements ! 1) 0 of
                       Inl e \<Rightarrow> Some (Inl e)
                     | Inr (sBytes, sRead) \<Rightarrow>
                         Some (Inr (Hex_encode rBytes, Hex_encode sBytes)))))"

definition rawToDer :: "hex_or_bytes \<Rightarrow> error + byte list" where
  "rawToDer rawSignature =
     (case (case rawSignature of
              Str hex \<Rightarrow> if length hex \<noteq> 128 then Inl RawStringLength else Hex_decode hex
            | Bytes raw \<Rightarrow> if length raw \<noteq> 64 then Inl RawBytesLength else Inr raw) of
        Inl e \<Rightarrow> Inl e
      | Inr bytes \<Rightarrow>
          (let r = subarray bytes 0 32;
               s = subarray bytes 32 64
           in encodeSignature (Bytes r) (Bytes s)))"

definition derToRaw :: "byte list \<Rightarrow> (error + js_string) option" where
  "derToRaw derSignature =
     (case decodeSignature derSignature of
        None \<Rightarrow> None
      | Some (Inl e) \<Rightarrow> Some (Inl e)
      | Some (Inr (r, s)) \<Rightarrow>
          (let rPadded = padStart r 64 0x30;
               sPadded = padStart s 64 0x30
           in Some (Inr (rPadded @ sPadded))))"

section \<open>Notions used in the statements\<close>

text \<open>The number that a sequence of bytes writes in big-endian order.\<close>

definition be_value :: "byte list \<Rightarrow> int" where
  "be_value bs = foldl (\<lambda>a b. a * 256 + uint b) 0 bs"


text \<open>
  What \<open>decodeInteger\<close> does to the content octets: one leading zero byte is removed
  when more than one byte is present.
\<close>

definition unpad :: "byte list \<Rightarrow> byte list" where
  "unpad v = (if length v > 1 \<and> hd v = 0 then tl v else v)"

text \<open>
  A byte array without its redundant leading zero bytes: the zero bytes at the front are
  removed, but never the last byte.
\<close>

definition strip_leading_zeros :: "byte list \<Rightarrow> byte list" where
  "strip_leading_zeros v =
     (if v = [] then [] else dropWhile (\<lambda>b. b = 0) (butlast v) @ [last v])"

text \<open>
  The content octets of the minimal DER encoding of the non-negative number that \<open>v\<close>
  writes: the stripped bytes, after one \<open>0x00\<close> byte when their most significant bit is
  set.
\<close>

definition der_content :: "byte list \<Rightarrow> byte list" where
  "der_content v =
     (let w = strip_leading_zeros v
      in (if w \<noteq> [] \<and> 128 \<le> uint (hd w) then [0x00] else []) @ w)"

text \<open>The characters of a lowercase hexadecimal string: \<open>0\<close> to \<open>9\<close> and \<open>a\<close> to \<open>f\<close>.\<close>

definition isLowerHex :: "code_unit \<Rightarrow> bool" where
  "isLowerHex c \<longleftrightarrow> (0x30 \<le> c \<and> c \<le> 0x39) \<or> (0x61 \<le> c \<and> c \<le> 0x66)"

text \<open>
  The bytes that \<open>Hex.decode\<close> stores, pair by pair: the loop over the indices, read as
  a recursion over the string.
\<close>

fun decode_pairs :: "js_string \<Rightarrow> byte list" where
  "decode_pairs (a # b # rest) = store_number (parseInt16 [a, b]) # decode_pairs rest"
| "decode_pairs _ = []"

text \<open>
  A signature component as \<open>encodeSignature\<close> takes it, for the round trip: a byte array,
  or a lowercase hexadecimal string of even length; the bytes it stands for; and the
  component as a lowercase hexadecimal string.
\<close>

definition lowercase_hex_component :: "hex_or_bytes \<Rightarrow> bool" where
  "lowercase_hex_component v =
     (case v of Str hex \<Rightarrow> even (length hex) \<and> list_all isLowerHex hex | Bytes bytes \<Rightarrow> True)"

definition component_bytes :: "hex_or_bytes \<Rightarrow> byte list" where
  "component_bytes v = (case v of Str hex \<Rightarrow> decode_pairs hex | Bytes bytes \<Rightarrow> bytes)"

definition component_hex :: "hex_or_bytes \<Rightarrow> js_string" where
  "component_hex v = (case v of Str hex \<Rightarrow> hex | Bytes bytes \<Rightarrow> Hex_encode bytes)"

text \<open>An element of a sequence: tag, length, content.\<close>

definition tlv :: "byte \<Rightarrow> byte list \<Rightarrow> byte list" where
  "tlv tag content = tag # encodeLength (int (length content)) @ content"

section \<open>Bitwise operators on small numbers\<close>

lemma js_and_ff: "js_and t 0xff = t mod 256"
proof -
  have "(255::int) = mask 8" by (simp add: mask_eq_exp_minus_1)
  then have "js_and t 0xff = signed_take_bit 31 t AND mask 8"
    by (simp add: js_and_def ToInt32_def signed_take_bit_int_eq_self)
  also have "\<dots> = take_bit 8 (signed_take_bit 31 t)" by (simp add: take_bit_eq_mask)
  also have "\<dots> = take_bit 8 t" by (simp add: take_bit_signed_take_bit)
  finally show ?thesis by (simp add: take_bit_eq_mod)
qed

lemma js_and_7f: "0 \<le> t \<Longrightarrow> t < 256 \<Longrightarrow> js_and t 0x7f = t mod 128"
proof -
  assume a: "0 \<le> t" "t < 256"
  have "(127::int) = mask 7" by (simp add: mask_eq_exp_minus_1)
  then have "js_and t 0x7f = t AND mask 7"
    using a by (simp add: js_and_def ToInt32_def signed_take_bit_int_eq_self)
  then show ?thesis by (simp add: take_bit_eq_mask [symmetric] take_bit_eq_mod)
qed

lemma js_and_80: "0 \<le> t \<Longrightarrow> t < 256 \<Longrightarrow> (js_and t 0x80 \<noteq> 0) = (128 \<le> t)"
proof -
  assume a: "0 \<le> t" "t < 256"
  have "js_and t 0x80 = t AND 128"
    using a by (simp add: js_and_def ToInt32_def signed_take_bit_int_eq_self)
  moreover have "(t AND 128 = 0) = (\<not> bit t 7)"
    using and_exp_eq_0_iff_not_bit [of t 7] by simp
  moreover have "bit t 7 = (128 \<le> t)" using a by (simp add: bit_iff_odd) presburger
  ultimately show ?thesis by simp
qed

lemma js_ushr8: "0 \<le> t \<Longrightarrow> t < 2 ^ 32 \<Longrightarrow> js_ushr t 8 = t div 256"
  by (simp add: js_ushr_def ToUint32_def drop_bit_eq_div take_bit_int_eq_self)

lemma signed_take_bit_or_int:
  "signed_take_bit n (a OR b) = signed_take_bit n a OR signed_take_bit n (b::int)"
  by (rule bit_eqI) (auto simp: bit_simps)

lemma js_shl_or: "0 \<le> len \<Longrightarrow> len < 2 ^ 24 \<Longrightarrow> 0 \<le> b \<Longrightarrow> b < 256 \<Longrightarrow>
   js_or (js_shl len 8) b = ToInt32 (len * 256 + b)"
proof -
  assume a: "0 \<le> len" "len < 2 ^ 24" "0 \<le> b" "b < 256"
  have tb: "take_bit 8 b = b" using a by (simp add: take_bit_int_eq_self)
  have "concat_bit 8 b len = b + push_bit 8 len"
    using tb by (simp add: concat_bit_eq)
  then have sum: "push_bit 8 len OR b = len * 256 + b"
    using tb by (simp add: concat_bit_def push_bit_eq_mult or.commute add.commute)
  have "js_shl len 8 = signed_take_bit 31 (push_bit 8 len)"
    using a by (simp add: js_shl_def ToInt32_def signed_take_bit_int_eq_self)
  then have "js_or (js_shl len 8) b = signed_take_bit 31 (push_bit 8 len) OR signed_take_bit 31 b"
    by (simp add: js_or_def ToInt32_def)
  also have "\<dots> = signed_take_bit 31 (push_bit 8 len OR b)"
    by (simp add: signed_take_bit_or_int)
  finally show ?thesis using sum by (simp add: ToInt32_def)
qed

lemma ToInt32_small: "0 \<le> x \<Longrightarrow> x < 2 ^ 31 \<Longrightarrow> ToInt32 x = x"
  by (simp add: ToInt32_def signed_take_bit_int_eq_self)

lemma ToInt32_big: "2 ^ 31 \<le> x \<Longrightarrow> x < 2 ^ 32 \<Longrightarrow> ToInt32 x = x - 2 ^ 32"
proof -
  assume a: "2 ^ 31 \<le> x" "x < 2 ^ 32"
  have "signed_take_bit 31 x = take_bit 32 (x + 2 ^ 31) - 2 ^ 31"
    by (simp add: signed_take_bit_eq_take_bit_shift)
  moreover have "take_bit 32 (x + 2 ^ 31) = x + 2 ^ 31 - 2 ^ 32"
  proof -
    have "(x + 2 ^ 31) mod 2 ^ 32 = (x + 2 ^ 31 - 2 ^ 32) mod 2 ^ 32"
      by (metis minus_mod_self2)
    also have "\<dots> = x + 2 ^ 31 - 2 ^ 32" using a by (simp add: mod_pos_pos_trivial)
    finally show ?thesis by (simp add: take_bit_eq_mod)
  qed
  ultimately show ?thesis by (simp add: ToInt32_def)
qed

section \<open>The length encoder\<close>

declare byteCount_loop.simps [simp del] fill_loop.simps [simp del]
  length_loop.simps [simp del] strip_loop.simps [simp del]

lemma byteCount_loop_stop: "temp \<le> 0 \<Longrightarrow> byteCount_loop temp bc = bc"
  by (subst byteCount_loop.simps) simp

lemma byteCount_loop_step:
  "0 < temp \<Longrightarrow> temp < 2 ^ 32 \<Longrightarrow> byteCount_loop temp bc = byteCount_loop (temp div 256) (bc + 1)"
  by (subst byteCount_loop.simps) (simp add: js_ushr8)

lemma byteCount_loop_1: "0 < t \<Longrightarrow> t < 256 \<Longrightarrow> byteCount_loop t bc = bc + 1"
  by (simp add: byteCount_loop_step byteCount_loop_stop)

lemma byteCount_loop_2: "256 \<le> t \<Longrightarrow> t < 65536 \<Longrightarrow> byteCount_loop t bc = bc + 2"
proof -
  assume a: "256 \<le> t" "t < 65536"
  then have "0 < t div 256" "t div 256 < 256" by simp_all
  then show ?thesis using a by (simp add: byteCount_loop_step [of t] byteCount_loop_1)
qed

lemma byteCount_loop_3: "65536 \<le> t \<Longrightarrow> t < 16777216 \<Longrightarrow> byteCount_loop t bc = bc + 3"
proof -
  assume a: "65536 \<le> t" "t < 16777216"
  then have "256 \<le> t div 256" "t div 256 < 65536" by simp_all
  then show ?thesis using a by (simp add: byteCount_loop_step [of t] byteCount_loop_2)
qed

lemma byteCount_loop_4: "16777216 \<le> t \<Longrightarrow> t < 4294967296 \<Longrightarrow> byteCount_loop t bc = bc + 4"
proof -
  assume a: "16777216 \<le> t" "t < 4294967296"
  then have "65536 \<le> t div 256" "t div 256 < 16777216" by simp_all
  then show ?thesis using a by (simp add: byteCount_loop_step [of t] byteCount_loop_3)
qed

lemma fill_loop_stop: "i \<le> 0 \<Longrightarrow> fill_loop i temp result = result"
  by (subst fill_loop.simps) simp

lemma fill_loop_step:
  "0 < i \<Longrightarrow> 0 \<le> temp \<Longrightarrow> temp < 2 ^ 32 \<Longrightarrow>
   fill_loop i temp result =
   fill_loop (i - 1) (temp div 256) (result[nat i := ToUint8 (temp mod 256)])"
  by (subst fill_loop.simps) (simp add: js_ushr8 js_and_ff)

lemma ToUint8_js_or_80:
  "ToUint8 (js_or 0x80 1) = 0x81" "ToUint8 (js_or 0x80 2) = 0x82"
  "ToUint8 (js_or 0x80 3) = 0x83" "ToUint8 (js_or 0x80 4) = 0x84"
  by (simp_all add: ToUint8_def js_or_def ToInt32_def signed_take_bit_int_eq_self)

lemma encodeLength_short: "len < 128 \<Longrightarrow> encodeLength len = [ToUint8 len]"
  by (simp add: encodeLength_def)

lemma replicate_numerals:
  "replicate 2 x = [x, x]" "replicate 3 x = [x, x, x]" "replicate 4 x = [x, x, x, x]"
  "replicate 5 x = [x, x, x, x, x]"
  by (simp_all add: eval_nat_numeral)

lemma list_update_numerals:
  "(a # b # c # xs)[2 := y] = a # b # y # xs"
  "(a # b # c # d # xs)[3 := y] = a # b # c # y # xs"
  "(a # b # c # d # e # xs)[4 := y] = a # b # c # d # y # xs"
  by (simp_all add: eval_nat_numeral)

lemma encodeLength_1:
  "128 \<le> n \<Longrightarrow> n < 256 \<Longrightarrow> encodeLength n = [0x81, ToUint8 (n mod 256)]"
  by (simp add: encodeLength_def byteCount_loop_1 ToUint8_js_or_80 fill_loop_step fill_loop_stop
      replicate_numerals)

lemma encodeLength_2:
  "256 \<le> n \<Longrightarrow> n < 65536 \<Longrightarrow>
   encodeLength n = [0x82, ToUint8 (n div 256 mod 256), ToUint8 (n mod 256)]"
  by (simp add: encodeLength_def byteCount_loop_2 ToUint8_js_or_80 fill_loop_step fill_loop_stop
      replicate_numerals list_update_numerals)

lemma encodeLength_3:
  "65536 \<le> n \<Longrightarrow> n < 16777216 \<Longrightarrow>
   encodeLength n = [0x83, ToUint8 (n div 65536 mod 256), ToUint8 (n div 256 mod 256),
                     ToUint8 (n mod 256)]"
proof -
  assume a: "65536 \<le> n" "n < 16777216"
  have d: "n div 256 div 256 = n div 65536" by (simp add: div_mult2_eq [symmetric])
  have "0 \<le> n div 256" "n div 256 < 2 ^ 32" "0 \<le> n div 65536" "n div 65536 < 2 ^ 32"
    using a by simp_all
  then show ?thesis using a d
    by (simp add: encodeLength_def byteCount_loop_3 ToUint8_js_or_80 fill_loop_step
        fill_loop_stop replicate_numerals list_update_numerals)
qed

lemma encodeLength_4:
  "16777216 \<le> n \<Longrightarrow> n < 4294967296 \<Longrightarrow>
   encodeLength n = [0x84, ToUint8 (n div 16777216 mod 256), ToUint8 (n div 65536 mod 256),
                     ToUint8 (n div 256 mod 256), ToUint8 (n mod 256)]"
proof -
  assume a: "16777216 \<le> n" "n < 4294967296"
  have d: "n div 256 div 256 = n div 65536" "n div 65536 div 256 = n div 16777216"
    by (simp_all add: div_mult2_eq [symmetric])
  have "0 \<le> n div 256" "n div 256 < 2 ^ 32" "0 \<le> n div 65536" "n div 65536 < 2 ^ 32"
    "0 \<le> n div 16777216" "n div 16777216 < 2 ^ 32"
    using a by simp_all
  then show ?thesis using a d
    by (simp add: encodeLength_def byteCount_loop_4 ToUint8_js_or_80 fill_loop_step
        fill_loop_stop replicate_numerals list_update_numerals)
qed

section \<open>The length decoder\<close>

lemma get_in_range: "0 \<le> i \<Longrightarrow> i < int (length data) \<Longrightarrow> get data i = Some (data ! nat i)"
  by (simp add: get_def)

lemma get_out_of_range: "i < 0 \<or> int (length data) \<le> i \<Longrightarrow> get data i = None"
  by (auto simp: get_def)

lemma get_frame:
  "0 \<le> i \<Longrightarrow> i < int (length xs) \<Longrightarrow> get (pre @ xs @ post) (int (length pre) + i) = get xs i"
proof -
  assume a: "0 \<le> i" "i < int (length xs)"
  then have n: "nat i < length xs" by linarith
  have "nat (int (length pre) + i) = length pre + nat i" using a by linarith
  then show ?thesis using a n by (simp add: get_def nth_append)
qed

lemma length_loop_stop: "numBytes \<le> i \<Longrightarrow> length_loop data off numBytes i acc = acc"
  by (subst length_loop.simps) simp

lemma length_loop_step:
  "i < numBytes \<Longrightarrow>
   length_loop data off numBytes i acc =
   length_loop data off numBytes (i + 1) (js_or (js_shl acc 8) (elem_bits (get data (off + 1 + i))))"
  by (subst length_loop.simps) simp

lemma length_loop_frame:
  "0 \<le> off \<Longrightarrow> 0 \<le> i \<Longrightarrow> off + 1 + numBytes \<le> int (length xs) \<Longrightarrow>
   length_loop (pre @ xs @ post) (int (length pre) + off) numBytes i acc =
   length_loop xs off numBytes i acc"
proof (induction "nat (numBytes - i)" arbitrary: i acc)
  case 0
  then show ?case by (simp add: length_loop_stop)
next
  case (Suc k)
  then have lt: "i < numBytes" by linarith
  have g: "get (pre @ xs @ post) (int (length pre) + off + 1 + i) = get xs (off + 1 + i)"
    using get_frame [of "off + 1 + i" xs pre post] Suc.prems lt by (simp add: add.assoc)
  have k: "k = nat (numBytes - (i + 1))" using Suc.hyps(2) by linarith
  show ?case
    using Suc.hyps(1) [OF k, of "js_or (js_shl acc 8) (elem_bits (get xs (off + 1 + i)))"]
      Suc.prems lt g
    by (simp add: length_loop_step [of i numBytes])
qed

lemma decodeLength_frame:
  assumes "0 \<le> off" and "decodeLength xs off = Inr r"
  shows "decodeLength (pre @ xs @ post) (int (length pre) + off) = Inr r"
proof -
  have inb: "off < int (length xs)"
    using assms(2) by (auto simp: decodeLength_def split: if_splits)
  have g: "get (pre @ xs @ post) (int (length pre) + off) = get xs off"
    using get_frame [of off xs pre post] assms(1) inb by simp
  show ?thesis
  proof (cases "elem_less (get xs off) 128")
    case True
    then show ?thesis using assms inb g by (simp add: decodeLength_def)
  next
    case False
    let ?nb = "js_and (elem_bits (get xs off)) 0x7f"
    have ok: "\<not> (?nb = 0 \<or> ?nb > 4)" "\<not> off + 1 + ?nb > int (length xs)"
      using assms(2) inb False by (auto simp: decodeLength_def Let_def split: if_splits)
    then have l: "length_loop (pre @ xs @ post) (int (length pre) + off) ?nb 0 0 =
                  length_loop xs off ?nb 0 0"
      using length_loop_frame [of off 0 ?nb xs pre post 0] assms(1) by simp
    show ?thesis using assms inb g False ok l
      by (simp add: decodeLength_def Let_def)
  qed
qed

lemma uint_byte_bounds: "0 \<le> uint (b::byte)" "uint (b::byte) < 256"
  using uint_lt2p [of b] by simp_all

lemma elem_bits_bounds: "0 \<le> elem_bits x" "elem_bits x < 256"
  by (cases x; simp add: elem_bits_def uint_byte_bounds)+

lemma length_loop_1:
  "length_loop data off 1 0 0 = elem_bits (get data (off + 1))"
proof -
  let ?a = "elem_bits (get data (off + 1))"
  have "js_or (js_shl 0 8) ?a = ?a"
    using js_shl_or [of 0 ?a] elem_bits_bounds [of "get data (off + 1)"]
    by (simp add: ToInt32_small)
  then show ?thesis by (simp add: length_loop_step length_loop_stop)
qed

lemma length_loop_2:
  "length_loop data off 2 0 0 =
     elem_bits (get data (off + 1)) * 256 + elem_bits (get data (off + 2))"
proof -
  let ?a = "elem_bits (get data (off + 1))" and ?b = "elem_bits (get data (off + 2))"
  have s1: "js_or (js_shl 0 8) ?a = ?a"
    using js_shl_or [of 0 ?a] elem_bits_bounds [of "get data (off + 1)"]
    by (simp add: ToInt32_small)
  have s2: "js_or (js_shl ?a 8) ?b = ?a * 256 + ?b"
    using js_shl_or [of ?a ?b] elem_bits_bounds [of "get data (off + 1)"]
      elem_bits_bounds [of "get data (off + 2)"]
    by (simp add: ToInt32_small)
  show ?thesis using s1 s2 by (simp add: length_loop_step length_loop_stop add.commute)
qed

lemma length_loop_3:
  "length_loop data off 3 0 0 =
     (elem_bits (get data (off + 1)) * 256 + elem_bits (get data (off + 2))) * 256
       + elem_bits (get data (off + 3))"
proof -
  let ?a = "elem_bits (get data (off + 1))" and ?b = "elem_bits (get data (off + 2))"
  let ?c = "elem_bits (get data (off + 3))"
  note bnd = elem_bits_bounds [of "get data (off + 1)"] elem_bits_bounds [of "get data (off + 2)"]
    elem_bits_bounds [of "get data (off + 3)"]
  have s1: "js_or (js_shl 0 8) ?a = ?a"
    using js_shl_or [of 0 ?a] bnd by (simp add: ToInt32_small)
  have s2: "js_or (js_shl ?a 8) ?b = ?a * 256 + ?b"
    using js_shl_or [of ?a ?b] bnd by (simp add: ToInt32_small)
  have s3: "js_or (js_shl (?a * 256 + ?b) 8) ?c = (?a * 256 + ?b) * 256 + ?c"
    using js_shl_or [of "?a * 256 + ?b" ?c] bnd by (simp add: ToInt32_small)
  show ?thesis using s1 s2 s3 by (simp add: length_loop_step length_loop_stop add.commute)
qed

lemma length_loop_4:
  "length_loop data off 4 0 0 =
     ToInt32 (((elem_bits (get data (off + 1)) * 256 + elem_bits (get data (off + 2))) * 256
       + elem_bits (get data (off + 3))) * 256 + elem_bits (get data (off + 4)))"
proof -
  let ?a = "elem_bits (get data (off + 1))" and ?b = "elem_bits (get data (off + 2))"
  let ?c = "elem_bits (get data (off + 3))" and ?d = "elem_bits (get data (off + 4))"
  note bnd = elem_bits_bounds [of "get data (off + 1)"] elem_bits_bounds [of "get data (off + 2)"]
    elem_bits_bounds [of "get data (off + 3)"] elem_bits_bounds [of "get data (off + 4)"]
  have s1: "js_or (js_shl 0 8) ?a = ?a"
    using js_shl_or [of 0 ?a] bnd by (simp add: ToInt32_small)
  have s2: "js_or (js_shl ?a 8) ?b = ?a * 256 + ?b"
    using js_shl_or [of ?a ?b] bnd by (simp add: ToInt32_small)
  have s3: "js_or (js_shl (?a * 256 + ?b) 8) ?c = (?a * 256 + ?b) * 256 + ?c"
    using js_shl_or [of "?a * 256 + ?b" ?c] bnd by (simp add: ToInt32_small)
  have s4: "js_or (js_shl ((?a * 256 + ?b) * 256 + ?c) 8) ?d =
            ToInt32 (((?a * 256 + ?b) * 256 + ?c) * 256 + ?d)"
    using js_shl_or [of "(?a * 256 + ?b) * 256 + ?c" ?d] bnd by simp
  show ?thesis using s1 s2 s3 s4 by (simp add: length_loop_step length_loop_stop add.commute)
qed

lemma recompose_three_bytes: "(n div 65536 * 256 + n div 256 mod 256) * 256 + n mod 256 = (n::int)"
proof -
  have "n div 65536 = n div 256 div 256" by (simp add: div_mult2_eq [symmetric])
  then have "n div 65536 * 256 + n div 256 mod 256 = n div 256" by simp
  then show ?thesis by simp
qed

lemma recompose_four_bytes: "((n div 16777216 * 256 + n div 65536 mod 256) * 256 + n div 256 mod 256)
                       * 256 + n mod 256 = (n::int)"
proof -
  have "n div 16777216 = n div 65536 div 256" by (simp add: div_mult2_eq [symmetric])
  then have "n div 16777216 * 256 + n div 65536 mod 256 = n div 65536" by simp
  then show ?thesis using recompose_three_bytes [of n] by simp
qed

lemma uint_ToUint8: "uint (ToUint8 x) = x mod 256"
  by (simp add: ToUint8_def uint_word_of_int)

lemma get_Cons_0: "get (x # xs) 0 = Some x"
  by (simp add: get_def)

lemma get_Cons_pos: "0 < i \<Longrightarrow> get (x # xs) i = get xs (i - 1)"
proof -
  assume a: "0 < i"
  then have "nat i = Suc (nat (i - 1))" by linarith
  then show ?thesis using a by (auto simp: get_def)
qed

lemma get_Cons_numeral: "get (x # xs) (numeral k) = get xs (numeral k - 1)"
  by (rule get_Cons_pos) simp

lemma get_Cons_1: "get (x # xs) 1 = get xs 0"
  using get_Cons_pos [of 1 x xs] by simp

lemma elem_bits_Some: "elem_bits (Some b) = uint b"
  by (simp add: elem_bits_def)

lemma length_loop_encoded_4: "length_loop [h, ToUint8 a, ToUint8 b, ToUint8 c, ToUint8 d] 0 4 0 0
   = ToInt32 (((a mod 256 * 256 + b mod 256) * 256 + c mod 256) * 256 + d mod 256)"
  by (simp add: length_loop_4 get_Cons_numeral get_Cons_1 get_Cons_0 elem_bits_Some uint_ToUint8)

lemma length_loop_encoded_3: "length_loop [h, ToUint8 a, ToUint8 b, ToUint8 c] 0 3 0 0
   = (a mod 256 * 256 + b mod 256) * 256 + c mod 256"
  by (simp add: length_loop_3 get_Cons_numeral get_Cons_1 get_Cons_0 elem_bits_Some uint_ToUint8)

lemma length_loop_encoded_2: "length_loop [h, ToUint8 a, ToUint8 b] 0 2 0 0 = a mod 256 * 256 + b mod 256"
  by (simp add: length_loop_2 get_Cons_numeral get_Cons_1 get_Cons_0 elem_bits_Some uint_ToUint8)

lemma length_loop_encoded_1: "length_loop [h, ToUint8 a] 0 1 0 0 = a mod 256"
  by (simp add: length_loop_1 get_Cons_numeral get_Cons_1 get_Cons_0 elem_bits_Some uint_ToUint8)

lemma decodeLength_short_form:
  "get data off = Some b \<Longrightarrow> uint b < 128 \<Longrightarrow> decodeLength data off = Inr (uint b, 1)"
  by (auto simp: decodeLength_def elem_less_def elem_bits_def get_def split: if_splits)

lemma decodeLength_numBytes:
  "get data off = Some b \<Longrightarrow> js_and (elem_bits (get data off)) 0x7f = uint b mod 128"
  by (simp add: elem_bits_def js_and_7f uint_byte_bounds)

lemma decodeLength_long_form:
  assumes "get data off = Some b" and "128 \<le> uint b" and "uint b mod 128 = k"
    and "1 \<le> k" and "k \<le> 4" and "off + 1 + k \<le> int (length data)"
  shows "decodeLength data off = Inr (length_loop data off k 0 0, 1 + k)"
proof -
  have "off < int (length data)" using assms(1) by (auto simp: get_def split: if_splits)
  moreover have "\<not> elem_less (get data off) 128" using assms(1,2) by (simp add: elem_less_def)
  ultimately show ?thesis
    using assms decodeLength_numBytes [OF assms(1)] by (simp add: decodeLength_def Let_def)
qed

lemma decodeLength_unsupported:
  assumes "get data off = Some b" and "128 \<le> uint b"
    and "uint b mod 128 = 0 \<or> 4 < uint b mod 128"
  shows "decodeLength data off = Inl UnsupportedLongForm"
proof -
  have "off < int (length data)" using assms(1) by (auto simp: get_def split: if_splits)
  moreover have "\<not> elem_less (get data off) 128" using assms(1,2) by (simp add: elem_less_def)
  ultimately show ?thesis
    using assms decodeLength_numBytes [OF assms(1)] by (auto simp: decodeLength_def Let_def)
qed

lemma top_byte:
  assumes "0 \<le> n" and "n < k * 256" and "0 < k"
  shows "(n::int) div k mod 256 = n div k"
proof -
  have nn: "0 \<le> n div k" using assms by (simp add: pos_imp_zdiv_nonneg_iff)
  have "n div k < 256"
  proof (rule ccontr)
    assume "\<not> n div k < 256"
    then have "k * 256 \<le> k * (n div k)" using assms(3) by (simp add: mult_left_mono)
    moreover have "k * (n div k) \<le> n"
      using assms(3) mult_div_mod_eq [of k n] pos_mod_sign [of k n] by linarith
    ultimately show False using assms(2) by linarith
  qed
  then show ?thesis using nn by (simp add: mod_pos_pos_trivial)
qed

lemma roundtrip_short_form: "0 \<le> n \<Longrightarrow> n < 128 \<Longrightarrow>
   decodeLength (encodeLength n) 0 = Inr (n, int (length (encodeLength n)))"
proof -
  assume a: "0 \<le> n" "n < 128"
  have "get [ToUint8 n] 0 = Some (ToUint8 n)" by (rule get_Cons_0)
  moreover have "uint (ToUint8 n) = n" using a by (simp add: uint_ToUint8)
  ultimately show ?thesis
    using a decodeLength_short_form [of "[ToUint8 n]" 0 "ToUint8 n"]
    by (simp add: encodeLength_short)
qed

lemma roundtrip_one_byte: "128 \<le> n \<Longrightarrow> n < 256 \<Longrightarrow>
   decodeLength (encodeLength n) 0 = Inr (n, int (length (encodeLength n)))"
proof -
  assume a: "128 \<le> n" "n < 256"
  let ?d = "[0x81, ToUint8 (n mod 256)]"
  have "decodeLength ?d 0 = Inr (length_loop ?d 0 1 0 0, 1 + 1)"
    by (rule decodeLength_long_form [where b = "0x81"]) (simp_all add: get_Cons_0)
  moreover have "length_loop ?d 0 1 0 0 = n" using a by (simp add: length_loop_encoded_1)
  ultimately show ?thesis using a by (simp add: encodeLength_1)
qed

lemma roundtrip_two_bytes: "256 \<le> n \<Longrightarrow> n < 65536 \<Longrightarrow>
   decodeLength (encodeLength n) 0 = Inr (n, int (length (encodeLength n)))"
proof -
  assume a: "256 \<le> n" "n < 65536"
  let ?d = "[0x82, ToUint8 (n div 256 mod 256), ToUint8 (n mod 256)]"
  have d: "decodeLength ?d 0 = Inr (length_loop ?d 0 2 0 0, 1 + 2)"
    by (rule decodeLength_long_form [where b = "0x82"]) (simp_all add: get_Cons_0)
  have "length_loop ?d 0 2 0 0 = n div 256 mod 256 mod 256 * 256 + n mod 256 mod 256"
    by (rule length_loop_encoded_2)
  also have "\<dots> = n div 256 mod 256 * 256 + n mod 256"
    by (simp only: mod_mod_trivial)
  also have "\<dots> = n div 256 * 256 + n mod 256"
    using a by (simp only: top_byte [of n 256])
  also have "\<dots> = n" by (rule div_mult_mod_eq)
  finally have l: "length_loop ?d 0 2 0 0 = n" .
  have e: "encodeLength n = ?d" using a by (rule encodeLength_2)
  show ?thesis unfolding e d l by simp
qed

lemma roundtrip_three_bytes: "65536 \<le> n \<Longrightarrow> n < 16777216 \<Longrightarrow>
   decodeLength (encodeLength n) 0 = Inr (n, int (length (encodeLength n)))"
proof -
  assume a: "65536 \<le> n" "n < 16777216"
  let ?d = "[0x83, ToUint8 (n div 65536 mod 256), ToUint8 (n div 256 mod 256),
             ToUint8 (n mod 256)]"
  have d: "decodeLength ?d 0 = Inr (length_loop ?d 0 3 0 0, 1 + 3)"
    by (rule decodeLength_long_form [where b = "0x83"]) (simp_all add: get_Cons_0)
  have t: "n div 65536 mod 256 = n div 65536"
    using a by (intro top_byte) simp_all
  have "length_loop ?d 0 3 0 0 =
        (n div 65536 mod 256 mod 256 * 256 + n div 256 mod 256 mod 256) * 256 + n mod 256 mod 256"
    by (rule length_loop_encoded_3)
  also have "\<dots> = (n div 65536 * 256 + n div 256 mod 256) * 256 + n mod 256"
    by (simp only: mod_mod_trivial t)
  also have "\<dots> = n" by (rule recompose_three_bytes)
  finally have l: "length_loop ?d 0 3 0 0 = n" .
  have e: "encodeLength n = ?d" using a by (rule encodeLength_3)
  show ?thesis unfolding e d l by simp
qed

lemma roundtrip_four_bytes: "16777216 \<le> n \<Longrightarrow> n < 2147483648 \<Longrightarrow>
   decodeLength (encodeLength n) 0 = Inr (n, int (length (encodeLength n)))"
proof -
  assume a: "16777216 \<le> n" "n < 2147483648"
  let ?d = "[0x84, ToUint8 (n div 16777216 mod 256), ToUint8 (n div 65536 mod 256),
             ToUint8 (n div 256 mod 256), ToUint8 (n mod 256)]"
  have d: "decodeLength ?d 0 = Inr (length_loop ?d 0 4 0 0, 1 + 4)"
    by (rule decodeLength_long_form [where b = "0x84"]) (simp_all add: get_Cons_0)
  have t: "n div 16777216 mod 256 = n div 16777216"
    using a by (intro top_byte) simp_all
  have i: "ToInt32 n = n" using a by (intro ToInt32_small) simp_all
  have "length_loop ?d 0 4 0 0 =
        ToInt32 (((n div 16777216 mod 256 mod 256 * 256 + n div 65536 mod 256 mod 256) * 256
                   + n div 256 mod 256 mod 256) * 256 + n mod 256 mod 256)"
    by (rule length_loop_encoded_4)
  also have "\<dots> = ToInt32 (((n div 16777216 * 256 + n div 65536 mod 256) * 256
                   + n div 256 mod 256) * 256 + n mod 256)"
    by (simp only: mod_mod_trivial t)
  also have "\<dots> = n" by (simp only: recompose_four_bytes i)
  finally have l: "length_loop ?d 0 4 0 0 = n" .
  have e: "encodeLength n = ?d" using a by (intro encodeLength_4) simp_all
  show ?thesis unfolding e d l by simp
qed

lemma decodeLength_encodeLength_0:
  assumes "0 \<le> n" and "n < 2 ^ 31"
  shows "decodeLength (encodeLength n) 0 = Inr (n, int (length (encodeLength n)))"
proof -
  have "n < 2147483648" using assms(2) by simp
  then consider "n < 128" | "128 \<le> n" "n < 256" | "256 \<le> n" "n < 65536"
    | "65536 \<le> n" "n < 16777216" | "16777216 \<le> n" "n < 2147483648"
    by linarith
  then show ?thesis
    using assms roundtrip_short_form roundtrip_one_byte roundtrip_two_bytes roundtrip_three_bytes roundtrip_four_bytes by cases blast+
qed

lemma ToUint8_nonzero: "0 < x \<Longrightarrow> x < 256 \<Longrightarrow> ToUint8 x \<noteq> 0"
proof
  assume a: "0 < x" "x < 256" and z: "ToUint8 x = 0"
  have "uint (ToUint8 x) = x" using a by (simp add: uint_ToUint8)
  then show False using a z by simp
qed

lemma top_byte_nonzero:
  assumes "k \<le> n" and "n < k * 256" and "0 < k"
  shows "ToUint8 (n div k mod 256) \<noteq> 0"
proof -
  have t: "n div k mod 256 = n div k" using assms by (intro top_byte) simp_all
  have "0 < n div k" using assms by (simp add: pos_imp_zdiv_pos_iff)
  moreover have "n div k < 256" using t pos_mod_bound [of 256 "n div k"] by simp
  ultimately show ?thesis unfolding t by (rule ToUint8_nonzero)
qed

lemma be_value_bytes:
  "be_value [ToUint8 a] = a mod 256"
  "be_value [ToUint8 a, ToUint8 b] = a mod 256 * 256 + b mod 256"
  "be_value [ToUint8 a, ToUint8 b, ToUint8 c] = (a mod 256 * 256 + b mod 256) * 256 + c mod 256"
  "be_value [ToUint8 a, ToUint8 b, ToUint8 c, ToUint8 d] =
     ((a mod 256 * 256 + b mod 256) * 256 + c mod 256) * 256 + d mod 256"
  by (simp_all add: be_value_def uint_ToUint8)

lemma long_shapeI:
  "encodeLength n = h # bs \<Longrightarrow> h = ToUint8 (js_or 0x80 (int (length bs))) \<Longrightarrow>
   1 \<le> length bs \<Longrightarrow> length bs \<le> 4 \<Longrightarrow> be_value bs = n \<Longrightarrow> hd bs \<noteq> 0 \<Longrightarrow>
   \<exists>bs. encodeLength n = ToUint8 (js_or 0x80 (int (length bs))) # bs
           \<and> 1 \<le> length bs \<and> length bs \<le> 4 \<and> be_value bs = n \<and> hd bs \<noteq> 0"
  by blast

lemma encodeLength_long_shape:
  assumes "128 \<le> n" and "n < 2 ^ 31"
  shows "\<exists>bs. encodeLength n = ToUint8 (js_or 0x80 (int (length bs))) # bs
           \<and> 1 \<le> length bs \<and> length bs \<le> 4 \<and> be_value bs = n \<and> hd bs \<noteq> 0"
proof -
  have "n < 2147483648" using assms(2) by simp
  then consider "128 \<le> n" "n < 256" | "256 \<le> n" "n < 65536"
    | "65536 \<le> n" "n < 16777216" | "16777216 \<le> n" "n < 2147483648"
    using assms(1) by linarith
  then show ?thesis
  proof cases
    case 1
    let ?bs = "[ToUint8 (n mod 256)]"
    have m: "n mod 256 = n" using 1 by (intro mod_pos_pos_trivial) simp_all
    have v: "be_value ?bs = n" by (simp only: be_value_bytes mod_mod_trivial m)
    have h: "hd ?bs \<noteq> 0" unfolding list.sel m using 1 by (intro ToUint8_nonzero) simp_all
    have e: "encodeLength n = 0x81 # ?bs" using 1 by (rule encodeLength_1)
    show ?thesis using e _ _ _ v h by (rule long_shapeI) (simp_all add: ToUint8_js_or_80)
  next
    case 2
    let ?bs = "[ToUint8 (n div 256 mod 256), ToUint8 (n mod 256)]"
    have t: "n div 256 mod 256 = n div 256" using 2 by (intro top_byte) simp_all
    have "be_value ?bs = n div 256 * 256 + n mod 256"
      by (simp only: be_value_bytes mod_mod_trivial t)
    also have "\<dots> = n" by (rule div_mult_mod_eq)
    finally have v: "be_value ?bs = n" .
    have h: "hd ?bs \<noteq> 0" unfolding list.sel using 2 by (intro top_byte_nonzero) simp_all
    have e: "encodeLength n = 0x82 # ?bs" using 2 by (rule encodeLength_2)
    show ?thesis using e _ _ _ v h by (rule long_shapeI) (simp_all add: ToUint8_js_or_80)
  next
    case 3
    let ?bs = "[ToUint8 (n div 65536 mod 256), ToUint8 (n div 256 mod 256), ToUint8 (n mod 256)]"
    have t: "n div 65536 mod 256 = n div 65536" using 3 by (intro top_byte) simp_all
    have "be_value ?bs = (n div 65536 * 256 + n div 256 mod 256) * 256 + n mod 256"
      by (simp only: be_value_bytes mod_mod_trivial t)
    also have "\<dots> = n" by (rule recompose_three_bytes)
    finally have v: "be_value ?bs = n" .
    have h: "hd ?bs \<noteq> 0" unfolding list.sel using 3 by (intro top_byte_nonzero) simp_all
    have e: "encodeLength n = 0x83 # ?bs" using 3 by (rule encodeLength_3)
    show ?thesis using e _ _ _ v h by (rule long_shapeI) (simp_all add: ToUint8_js_or_80)
  next
    case 4
    let ?bs = "[ToUint8 (n div 16777216 mod 256), ToUint8 (n div 65536 mod 256),
                ToUint8 (n div 256 mod 256), ToUint8 (n mod 256)]"
    have t: "n div 16777216 mod 256 = n div 16777216" using 4 by (intro top_byte) simp_all
    have "be_value ?bs = ((n div 16777216 * 256 + n div 65536 mod 256) * 256 + n div 256 mod 256) * 256
                         + n mod 256"
      by (simp only: be_value_bytes mod_mod_trivial t)
    also have "\<dots> = n" by (rule recompose_four_bytes)
    finally have v: "be_value ?bs = n" .
    have h: "hd ?bs \<noteq> 0" unfolding list.sel using 4 by (intro top_byte_nonzero) simp_all
    have e: "encodeLength n = 0x84 # ?bs" using 4 by (intro encodeLength_4) simp_all
    show ?thesis using e _ _ _ v h by (rule long_shapeI) (simp_all add: ToUint8_js_or_80)
  qed
qed

section \<open>Decoding INTEGER and SEQUENCE\<close>

lemma decodeLength_Inr_bounds:
  assumes "decodeLength data off = Inr (len, lb)"
  shows "0 \<le> off \<and> 1 \<le> lb \<and> lb \<le> 5 \<and> off + lb \<le> int (length data)"
proof (cases "get data off")
  case None
  then have "js_and (elem_bits (get data off)) 0x7f = 0"
    by (simp add: elem_bits_def js_and_def ToInt32_def)
  then show ?thesis using assms None
    by (simp add: decodeLength_def elem_less_def Let_def split: if_splits)
next
  case (Some b)
  then have r: "0 \<le> off" "off < int (length data)" by (auto simp: get_def split: if_splits)
  show ?thesis
  proof (cases "uint b < 128")
    case True
    then show ?thesis using assms r decodeLength_short_form [OF Some True] by simp
  next
    case False
    have "js_and (elem_bits (get data off)) 0x7f = uint b mod 128"
      using Some by (rule decodeLength_numBytes)
    moreover have "0 \<le> uint b mod 128" by simp
    ultimately show ?thesis using assms r Some False
      by (auto simp: decodeLength_def elem_less_def Let_def split: if_splits)
  qed
qed

lemma subarray_in_range:
  "0 \<le> s \<Longrightarrow> s \<le> e \<Longrightarrow> e \<le> int (length data) \<Longrightarrow>
   subarray data s e = take (nat (e - s)) (drop (nat s) data)"
  by (simp add: subarray_def rel_index_def Let_def)

lemma subarray_whole: "subarray data 0 (int (length data)) = data"
  by (simp add: subarray_in_range)

lemma subarray_from_in_range:
  "0 \<le> s \<Longrightarrow> s \<le> int (length data) \<Longrightarrow> subarray_from data s = drop (nat s) data"
  by (simp add: subarray_from_def subarray_in_range)

lemma take4_drop:
  assumes "m + 4 \<le> length xs"
  shows "take 4 (drop m xs) = [xs ! m, xs ! (m + 1), xs ! (m + 2), xs ! (m + 3)]"
proof -
  have "take 4 (drop m xs) = take (Suc (Suc (Suc (Suc 0)))) (drop m xs)"
    by (simp add: eval_nat_numeral)
  also have "\<dots> = [xs ! m, xs ! (m + 1), xs ! (m + 2), xs ! (m + 3)]"
    using assms by (simp add: take_Suc_conv_app_nth add.commute eval_nat_numeral)
  finally show ?thesis .
qed

lemma four_bytes_range:
  assumes "0 \<le> a" "a < 256" "0 \<le> b" "b < 256" "0 \<le> c" "c < 256" "0 \<le> d" "d < (256::int)"
  shows "0 \<le> ((a * 256 + b) * 256 + c) * 256 + d"
    and "((a * 256 + b) * 256 + c) * 256 + d < 2 ^ 32"
    and "128 \<le> a \<Longrightarrow> 2 ^ 31 \<le> ((a * 256 + b) * 256 + c) * 256 + d"
  using assms by simp_all

lemma decodeLength_four_bytes:
  assumes "get data p = Some 0x84" and "p + 5 \<le> int (length data)"
  shows "decodeLength data p = Inr (ToInt32 (be_value (take 4 (drop (nat p + 1) data))), 5)"
proof -
  have p0: "0 \<le> p" using assms(1) by (auto simp: get_def split: if_splits)
  have d: "decodeLength data p = Inr (length_loop data p 4 0 0, 1 + 4)"
    using assms by (intro decodeLength_long_form [where b = "0x84"]) simp_all
  define q where "q = nat p + 1"
  have g: "get data (p + i) = Some (data ! (q + j))" if "0 < i" "i \<le> 4" "nat i = Suc j" for i j
  proof -
    have "nat (p + i) = q + j" using that p0 by (simp add: q_def nat_add_distrib)
    then show ?thesis using that p0 assms(2) by (simp add: get_def)
  qed
  have t: "take 4 (drop q data) = [data ! q, data ! (q + 1), data ! (q + 2), data ! (q + 3)]"
  proof (rule take4_drop)
    show "q + 4 \<le> length data" unfolding q_def using p0 assms(2) by linarith
  qed
  have "length_loop data p 4 0 0 = ToInt32 (be_value (take 4 (drop q data)))"
    unfolding t length_loop_4 g [of 1 0, simplified] g [of 2 1, simplified]
      g [of 3 2, simplified] g [of 4 3, simplified]
    by (simp add: be_value_def elem_bits_Some)
  then have "length_loop data p 4 0 0 = ToInt32 (be_value (take 4 (drop (nat p + 1) data)))"
    by (simp add: q_def)
  then show ?thesis using d by simp
qed

lemma decodeInteger_wrong_tag:
  "get data off \<noteq> Some 0x02 \<Longrightarrow>
   decodeInteger data off = Inl (if get data off = None then TypeError else ExpectedIntegerTag)"
  by (simp add: decodeInteger_def)

lemma decodeInteger_length_error:
  "get data off = Some 0x02 \<Longrightarrow> decodeLength data (off + 1) = Inl e \<Longrightarrow>
   decodeInteger data off = Inl e"
  by (simp add: decodeInteger_def)

lemma decodeInteger_out_of_bounds:
  "get data off = Some 0x02 \<Longrightarrow> decodeLength data (off + 1) = Inr (len, lb) \<Longrightarrow>
   off + 1 + lb + len > int (length data) \<Longrightarrow> decodeInteger data off = Inl IntegerOutOfBounds"
  by (simp add: decodeInteger_def)

lemma strip_pad_eq_unpad:
  "(if length v > 1 \<and> get v 0 = Some 0x00 then subarray_from v 1 else v) = unpad v"
proof (cases v)
  case Nil
  then show ?thesis by (simp add: unpad_def)
next
  case (Cons x xs)
  then show ?thesis
    by (simp add: unpad_def get_Cons_0 subarray_from_in_range)
qed

lemma decodeInteger_value:
  "get data off = Some 0x02 \<Longrightarrow> decodeLength data (off + 1) = Inr (len, lb) \<Longrightarrow>
   off + 1 + lb + len \<le> int (length data) \<Longrightarrow>
   decodeInteger data off =
     Inr (unpad (subarray data (off + 1 + lb) (off + 1 + lb + len)), 1 + lb + len)"
  unfolding decodeInteger_def Let_def strip_pad_eq_unpad by simp

lemma elements_loop_stop:
  "contentEnd \<le> pos \<Longrightarrow> elements_loop data contentEnd pos elements = Some (Inr elements)"
  by (subst elements_loop.simps) simp

lemma elements_loop_error:
  "pos < contentEnd \<Longrightarrow> decodeLength data (pos + 1) = Inl e \<Longrightarrow>
   elements_loop data contentEnd pos elements = Some (Inl e)"
  by (subst elements_loop.simps) simp

lemma elements_loop_step:
  "pos < contentEnd \<Longrightarrow> decodeLength data (pos + 1) = Inr (len, lb) \<Longrightarrow>
   elements_loop data contentEnd pos elements =
   elements_loop data contentEnd (pos + (1 + lb + len))
     (elements @ [subarray data pos (pos + (1 + lb + len))])"
  by (subst elements_loop.simps) (simp add: Let_def)

lemma decodeSequence_wrong_tag:
  "get data off \<noteq> Some 0x30 \<Longrightarrow> decodeSequence data off = Some (Inl ExpectedSequenceTag)"
  by (simp add: decodeSequence_def)

lemma decodeSequence_length_error:
  "get data off = Some 0x30 \<Longrightarrow> decodeLength data (off + 1) = Inl e \<Longrightarrow>
   decodeSequence data off = Some (Inl e)"
  by (simp add: decodeSequence_def)

lemma decodeSequence_out_of_bounds:
  "get data off = Some 0x30 \<Longrightarrow> decodeLength data (off + 1) = Inr (len, lb) \<Longrightarrow>
   off + 1 + lb + len > int (length data) \<Longrightarrow>
   decodeSequence data off = Some (Inl SequenceOutOfBounds)"
  by (simp add: decodeSequence_def)

lemma decodeSequence_content:
  "get data off = Some 0x30 \<Longrightarrow> decodeLength data (off + 1) = Inr (len, lb) \<Longrightarrow>
   off + 1 + lb + len \<le> int (length data) \<Longrightarrow>
   decodeSequence data off =
     (case elements_loop data (off + 1 + lb + len) (off + 1 + lb) [] of
        None \<Rightarrow> None
      | Some (Inl e) \<Rightarrow> Some (Inl e)
      | Some (Inr elements) \<Rightarrow> Some (Inr (elements, 1 + lb + len)))"
  by (simp add: decodeSequence_def Let_def)

lemma decodeSignature_sequence_error:
  "decodeSequence signature 0 = Some (Inl e) \<Longrightarrow> decodeSignature signature = Some (Inl e)"
  by (simp add: decodeSignature_def)

lemma mod_128_long: "128 \<le> x \<Longrightarrow> x < 256 \<Longrightarrow> (x::int) mod 128 = x - 128"
proof -
  assume a: "128 \<le> x" "x < 256"
  have "x mod 128 = (x - 128) mod 128" by (rule minus_mod_self2 [symmetric])
  also have "\<dots> = x - 128" using a by (intro mod_pos_pos_trivial) simp_all
  finally show ?thesis .
qed

subsection \<open>A sequence on which the loop over the elements does not end\<close>

text \<open>
  The element of the sequence \<open>30 06 02 84 FF FF FF FA\<close> declares the length
  \<open>0xFFFFFFFA\<close>, which \<open>decodeLength\<close> reads as \<open>-6\<close>: the element is 0 bytes long in
  total, \<open>pos\<close> stays where it is, and \<open>decodeSequence\<close> never returns.
\<close>

lemma decodeLength_minus_six:
  "decodeLength [0x30, 0x06, 0x02, 0x84, 0xFF, 0xFF, 0xFF, 0xFA] (2 + 1) = Inr (- 6, 5)"
proof -
  have "ToInt32 4294967290 = - 6" using ToInt32_big [of 4294967290] by simp
  then show ?thesis
    using decodeLength_four_bytes [of "[0x30, 0x06, 0x02, 0x84, 0xFF, 0xFF, 0xFF, 0xFA]" 3]
    by (simp add: get_def be_value_def)
qed

lemma elements_loop_never_returns:
  "elements_loop [0x30, 0x06, 0x02, 0x84, 0xFF, 0xFF, 0xFF, 0xFA] 8 2 elements = None"
proof -
  let ?D = "[0x30, 0x06, 0x02, 0x84, 0xFF, 0xFF, 0xFF, 0xFA] :: byte list"
  let ?P = "\<lambda>data contentEnd pos (els :: byte list list) (y :: error + byte list list).
              \<not> (data = ?D \<and> contentEnd = 8 \<and> pos = 2)"
  have never: "?P data contentEnd pos els y"
    if r: "elements_loop data contentEnd pos els = Some y" for data contentEnd pos els y
  proof (rule elements_loop.raw_induct [where P = ?P, OF _ r])
    fix f :: "byte list \<Rightarrow> int \<Rightarrow> int \<Rightarrow> byte list list \<Rightarrow> (error + byte list list) option"
    fix data contentEnd pos els y
    assume ih: "\<And>data contentEnd pos els y. f data contentEnd pos els = Some y \<Longrightarrow>
                  \<not> (data = ?D \<and> contentEnd = 8 \<and> pos = 2)"
      and step: "(if pos < contentEnd
          then case decodeLength data (pos + 1) of Inl e \<Rightarrow> Some (Inl e)
               | Inr (elemLength, elemLengthBytes) \<Rightarrow>
                   let elemTotalLength = 1 + elemLengthBytes + elemLength
                   in f data contentEnd (pos + elemTotalLength)
                        (els @ [subarray data pos (pos + elemTotalLength)])
          else Some (Inr els)) = Some y"
    show "\<not> (data = ?D \<and> contentEnd = 8 \<and> pos = 2)"
    proof
      assume a: "data = ?D \<and> contentEnd = 8 \<and> pos = 2"
      have "f ?D 8 (2 + (1 + 5 + - 6)) (els @ [subarray ?D 2 (2 + (1 + 5 + - 6))]) = Some y"
        using step a decodeLength_minus_six by (simp add: Let_def)
      then have "f ?D 8 2 (els @ [subarray ?D 2 2]) = Some y" by simp
      then show False using ih by blast
    qed
  qed
  show ?thesis
  proof (cases "elements_loop ?D 8 2 elements")
    case None
    then show ?thesis .
  next
    case (Some y)
    then show ?thesis using never [OF Some] by simp
  qed
qed

lemma decodeSequence_never_returns:
  "decodeSequence [0x30, 0x06, 0x02, 0x84, 0xFF, 0xFF, 0xFF, 0xFA] 0 = None"
proof -
  let ?D = "[0x30, 0x06, 0x02, 0x84, 0xFF, 0xFF, 0xFF, 0xFA] :: byte list"
  have g: "get ?D 0 = Some 0x30" by (rule get_Cons_0)
  have d: "decodeLength ?D (0 + 1) = Inr (6, 1)"
    using decodeLength_short_form [of ?D 1 "0x06"] by (simp add: get_def)
  show ?thesis
    using decodeSequence_content [OF g d] elements_loop_never_returns [of "[]"] by simp
qed

section \<open>Decoding what the encoder writes\<close>

lemma tlv_decodeLength:
  assumes "0 \<le> n" and "n < 2 ^ 31"
  shows "decodeLength (pre @ tag # encodeLength n @ rest) (int (length pre) + 1) =
         Inr (n, int (length (encodeLength n)))"
proof -
  have "decodeLength ((pre @ [tag]) @ encodeLength n @ rest) (int (length (pre @ [tag])) + 0) =
        Inr (n, int (length (encodeLength n)))"
    using decodeLength_encodeLength_0 [OF assms] by (intro decodeLength_frame) simp_all
  then show ?thesis by (simp add: add.commute)
qed

lemma get_tag: "get (pre @ tag # rest) (int (length pre)) = Some tag"
  by (simp add: get_def)

lemma subarray_tlv_content:
  "subarray (pre @ tag # enc @ content @ post)
     (int (length pre) + 1 + int (length enc))
     (int (length pre) + 1 + int (length enc) + int (length content)) = content"
proof -
  let ?d = "pre @ tag # enc @ content @ post"
  have s: "nat (int (length pre) + 1 + int (length enc)) = length (pre @ tag # enc)"
    by simp
  have "subarray ?d (int (length pre) + 1 + int (length enc))
          (int (length pre) + 1 + int (length enc) + int (length content))
        = take (nat (int (length content))) (drop (length (pre @ tag # enc)) ?d)"
    unfolding s [symmetric] by (subst subarray_in_range) simp_all
  also have "drop (length (pre @ tag # enc)) ?d = content @ post"
    using append_eq_conv_conj [of "pre @ tag # enc" "content @ post" ?d] by simp
  finally show ?thesis by simp
qed

lemma decodeInteger_tlv:
  assumes "int (length content) < 2 ^ 31"
  shows "decodeInteger (pre @ 0x02 # encodeLength (int (length content)) @ content @ post)
           (int (length pre))
         = Inr (unpad content,
                1 + int (length (encodeLength (int (length content)))) + int (length content))"
proof -
  let ?enc = "encodeLength (int (length content))"
  let ?d = "pre @ 0x02 # ?enc @ content @ post"
  have g: "get ?d (int (length pre)) = Some 0x02" by (rule get_tag)
  have d: "decodeLength ?d (int (length pre) + 1) = Inr (int (length content), int (length ?enc))"
    using assms by (intro tlv_decodeLength) simp_all
  have fit: "int (length pre) + 1 + int (length ?enc) + int (length content) \<le> int (length ?d)"
    by simp
  show ?thesis
    using decodeInteger_value [OF g d fit] subarray_tlv_content [of pre "0x02" ?enc content post]
    by simp
qed

section \<open>Encoding an INTEGER\<close>

lemma strip_leading_zeros_Cons_zero:
  "xs \<noteq> [] \<Longrightarrow> strip_leading_zeros (0 # xs) = strip_leading_zeros xs"
  by (simp add: strip_leading_zeros_def)

lemma strip_leading_zeros_Cons_nonzero:
  "x \<noteq> 0 \<Longrightarrow> strip_leading_zeros (x # xs) = x # xs"
  by (cases "xs = []") (simp_all add: strip_leading_zeros_def)

lemma strip_leading_zeros_single: "strip_leading_zeros [x] = [x]"
  by (simp add: strip_leading_zeros_def)

lemma strip_loop_drop:
  "0 \<le> start \<Longrightarrow> start < int (length v) \<Longrightarrow>
   0 \<le> strip_loop v start \<and> strip_loop v start < int (length v) \<and>
   drop (nat (strip_loop v start)) v = strip_leading_zeros (drop (nat start) v)"
proof (induction v start rule: strip_loop.induct)
  case (1 bytes start)
  have n: "nat start < length bytes" using "1.prems" by linarith
  have g: "get bytes start = Some (bytes ! nat start)" using "1.prems" by (simp add: get_def)
  have c: "drop (nat start) bytes = bytes ! nat start # drop (Suc (nat start)) bytes"
    using n by (simp add: Cons_nth_drop_Suc)
  show ?case
  proof (cases "start < int (length bytes) - 1 \<and> get bytes start = Some 0")
    case True
    then have z: "bytes ! nat start = 0" using g by simp
    have "Suc (nat start) < length bytes" using True "1.prems" by linarith
    then have ne: "drop (Suc (nat start)) bytes \<noteq> []" by simp
    have s: "nat (start + 1) = Suc (nat start)" using "1.prems" by linarith
    have ih: "0 \<le> strip_loop bytes (start + 1) \<and> strip_loop bytes (start + 1) < int (length bytes)
              \<and> drop (nat (strip_loop bytes (start + 1))) bytes
                = strip_leading_zeros (drop (nat (start + 1)) bytes)"
      using "1.IH" [OF True] True "1.prems" by simp
    have e: "strip_loop bytes start = strip_loop bytes (start + 1)"
      using True by (subst strip_loop.simps) simp
    show ?thesis
      unfolding e using ih strip_leading_zeros_Cons_zero [OF ne] by (simp add: c z s)
  next
    case False
    then have e: "strip_loop bytes start = start" by (subst strip_loop.simps) auto
    have "strip_leading_zeros (drop (nat start) bytes) = drop (nat start) bytes"
    proof (cases "bytes ! nat start = 0")
      case True
      then have "\<not> start < int (length bytes) - 1" using False g by simp
      then have "length bytes \<le> Suc (nat start)" using "1.prems" by linarith
      then have "drop (Suc (nat start)) bytes = []" by simp
      then show ?thesis using c by (simp add: strip_leading_zeros_single)
    next
      case False
      then show ?thesis using c by (simp add: strip_leading_zeros_Cons_nonzero)
    qed
    then show ?thesis unfolding e using "1.prems" by simp
  qed
qed

lemma strip_loop_empty: "strip_loop [] 0 = 0"
  by (subst strip_loop.simps) simp

lemma stripped_bytes:
  "(let start = strip_loop v 0 in if start > 0 then subarray_from v start else v)
   = strip_leading_zeros v"
proof (cases "v = []")
  case True
  then show ?thesis by (simp add: strip_loop_empty strip_leading_zeros_def)
next
  case False
  then have "0 \<le> strip_loop v 0 \<and> strip_loop v 0 < int (length v) \<and>
             drop (nat (strip_loop v 0)) v = strip_leading_zeros (drop (nat 0) v)"
    by (intro strip_loop_drop) simp_all
  then show ?thesis by (auto simp: Let_def subarray_from_in_range)
qed

lemma needPadding_eq:
  "(js_and (elem_bits (get w 0)) 0x80 \<noteq> 0) = (w \<noteq> [] \<and> 128 \<le> uint (hd w))"
proof (cases w)
  case Nil
  then show ?thesis by (simp add: get_def elem_bits_def js_and_def ToInt32_def)
next
  case (Cons x xs)
  then show ?thesis by (simp add: get_Cons_0 elem_bits_Some js_and_80 uint_byte_bounds)
qed

lemma encodeInteger_bytes_eq:
  "encodeInteger_bytes v = 0x02 # encodeLength (int (length (der_content v))) @ der_content v"
proof -
  let ?w = "strip_leading_zeros v"
  have "encodeInteger_bytes v =
        (let bytes = ?w;
             needPadding = (js_and (elem_bits (get bytes 0)) 0x80 \<noteq> 0);
             contentLen = int (length bytes) + (if needPadding then 1 else 0);
             lengthBytes = encodeLength contentLen
         in [0x02] @ lengthBytes @ (if needPadding then [0x00] else []) @ bytes)"
    unfolding encodeInteger_bytes_def stripped_bytes [symmetric] by (simp add: Let_def)
  then show ?thesis by (simp add: Let_def needPadding_eq der_content_def add.commute)
qed


lemma strip_leading_zeros_cases:
  "strip_leading_zeros (x # xs) = (if x = 0 \<and> xs \<noteq> [] then strip_leading_zeros xs else x # xs)"
  by (cases "x = 0"; cases "xs = []")
    (simp_all add: strip_leading_zeros_Cons_zero strip_leading_zeros_Cons_nonzero
      strip_leading_zeros_single)

lemma strip_leading_zeros_hd:
  "length (strip_leading_zeros v) > 1 \<Longrightarrow> hd (strip_leading_zeros v) \<noteq> 0"
proof (induction v)
  case Nil
  then show ?case by (simp add: strip_leading_zeros_def)
next
  case (Cons x xs)
  then show ?case by (auto simp: strip_leading_zeros_cases split: if_splits)
qed

lemma strip_leading_zeros_prefix: "\<exists>k. v = replicate k 0 @ strip_leading_zeros v"
proof (induction v)
  case Nil
  then show ?case by (simp add: strip_leading_zeros_def)
next
  case (Cons x xs)
  show ?case
  proof (cases "x = 0 \<and> xs \<noteq> []")
    case True
    obtain k where k: "xs = replicate k 0 @ strip_leading_zeros xs" using Cons.IH by blast
    have "x # xs = replicate (Suc k) 0 @ strip_leading_zeros (x # xs)"
      using True k by (simp add: strip_leading_zeros_cases)
    then show ?thesis by blast
  next
    case False
    then have "x # xs = replicate 0 0 @ strip_leading_zeros (x # xs)"
      by (auto simp: strip_leading_zeros_cases)
    then show ?thesis by blast
  qed
qed

lemma length_strip_leading_zeros: "length (strip_leading_zeros v) \<le> length v"
proof -
  obtain k where "v = replicate k 0 @ strip_leading_zeros v"
    using strip_leading_zeros_prefix by blast
  then have "length v = k + length (strip_leading_zeros v)"
    by (metis length_append length_replicate)
  then show ?thesis by simp
qed

lemma length_der_content: "length (der_content v) \<le> length v + 1"
  using length_strip_leading_zeros [of v] by (simp add: der_content_def Let_def)

lemma unpad_der_content: "unpad (der_content v) = strip_leading_zeros v"
proof (cases "strip_leading_zeros v \<noteq> [] \<and> 128 \<le> uint (hd (strip_leading_zeros v))")
  case True
  then show ?thesis by (simp add: der_content_def Let_def unpad_def)
next
  case False
  then have d: "der_content v = strip_leading_zeros v" by (auto simp: der_content_def Let_def)
  show ?thesis unfolding d using strip_leading_zeros_hd [of v] by (auto simp: unpad_def)
qed


lemma decodeInteger_content:
  assumes "get data off = Some 0x02" and "decodeLength data (off + 1) = Inr (len, lb)"
    and "0 \<le> len" and "off + 1 + lb + len \<le> int (length data)"
  shows "decodeInteger data off =
           Inr (unpad (take (nat len) (drop (nat (off + 1 + lb)) data)), 1 + lb + len)"
    and "int (length (take (nat len) (drop (nat (off + 1 + lb)) data))) = len"
proof -
  have b: "0 \<le> off + 1" "1 \<le> lb" using decodeLength_Inr_bounds [OF assms(2)] by simp_all
  have "subarray data (off + 1 + lb) (off + 1 + lb + len) =
        take (nat len) (drop (nat (off + 1 + lb)) data)"
    using b assms(3,4) by (subst subarray_in_range) simp_all
  then show "decodeInteger data off =
           Inr (unpad (take (nat len) (drop (nat (off + 1 + lb)) data)), 1 + lb + len)"
    using decodeInteger_value [OF assms(1,2,4)] by simp
  show "int (length (take (nat len) (drop (nat (off + 1 + lb)) data))) = len"
    using b assms(3,4) by simp
qed

lemma unpad_if: "(if length c > 1 \<and> hd c = 0x00 then tl c else c) = unpad c"
  by (simp add: unpad_def)

section \<open>Hexadecimal strings\<close>

lemma Hex_decode_odd: "odd (length hex) \<Longrightarrow> Hex_decode hex = Inl InvalidHexLength"
  by (simp add: Hex_decode_def odd_iff_mod_2_eq_one)

lemma decode_loop_pairs:
  "map (\<lambda>i. store_number (parseInt16 (substring hex (i * 2) (i * 2 + 2)))) [0..<length hex div 2]
   = decode_pairs hex"
proof (induction hex rule: decode_pairs.induct)
  case (1 a b rest)
  have "[0..<length (a # b # rest) div 2] = 0 # map Suc [0..<length rest div 2]"
    by (simp add: upt_conv_Cons map_Suc_upt del: upt_Suc)
  then show ?case
    using "1.IH" by (simp add: substring_def comp_def del: upt_Suc)
qed simp_all

lemma Hex_decode_even: "even (length hex) \<Longrightarrow> Hex_decode hex = Inr (decode_pairs hex)"
  using decode_loop_pairs [of hex] by (simp add: Hex_decode_def Let_def)

lemma length_decode_pairs: "length (decode_pairs hex) = length hex div 2"
  by (induction hex rule: decode_pairs.induct) simp_all

lemma decode_pairs_nth:
  "i < length hex div 2 \<Longrightarrow>
   decode_pairs hex ! i = store_number (parseInt16 [hex ! (2 * i), hex ! (2 * i + 1)])"
proof (induction hex arbitrary: i rule: decode_pairs.induct)
  case (1 a b rest)
  then show ?case by (cases i) simp_all
qed simp_all

lemma isHexDigit_unat:
  "isHexDigit c \<longleftrightarrow> (48 \<le> unat c \<and> unat c \<le> 57) \<or> (97 \<le> unat c \<and> unat c \<le> 102)
                    \<or> (65 \<le> unat c \<and> unat c \<le> 70)"
  by (auto simp: isHexDigit_def digitValue_def word_le_nat_alt)

lemma isLowerHex_unat:
  "isLowerHex c \<longleftrightarrow> (48 \<le> unat c \<and> unat c \<le> 57) \<or> (97 \<le> unat c \<and> unat c \<le> 102)"
  by (simp add: isLowerHex_def word_le_nat_alt)

lemma isWhiteSpace_unat: "isWhiteSpace c \<Longrightarrow> unat c \<le> 32 \<or> 160 \<le> unat c"
  by (auto simp: isWhiteSpace_def word_le_nat_alt)

lemma isHexDigit_not_special:
  assumes "isHexDigit c"
  shows "\<not> isWhiteSpace c" and "c \<noteq> 0x2B" and "c \<noteq> 0x2D" and "c \<noteq> 0x78" and "c \<noteq> 0x58"
proof -
  show "\<not> isWhiteSpace c" using assms isWhiteSpace_unat [of c] by (auto simp: isHexDigit_unat)
  show "c \<noteq> 0x2B" "c \<noteq> 0x2D" "c \<noteq> 0x78" "c \<noteq> 0x58"
    using assms by (auto simp: isHexDigit_unat)
qed

lemma isLowerHex_isHexDigit: "isLowerHex c \<Longrightarrow> isHexDigit c"
  by (auto simp: isLowerHex_unat isHexDigit_unat)

lemma digitValue_less: "digitValue c = Some d \<Longrightarrow> d < 16"
  by (auto simp: digitValue_def word_le_nat_alt split: if_splits)

lemma parseInt16_pair:
  assumes "\<not> isWhiteSpace a" and "a \<noteq> 0x2B" and "a \<noteq> 0x2D"
  shows "parseInt16 [a, b] =
          (if a = 0x30 \<and> (b = 0x78 \<or> b = 0x58) then None
           else if \<not> isHexDigit a then None
           else Some (int (digitsValue 0 (takeWhile isHexDigit [a, b]))))"
  using assms by (simp add: parseInt16_def Let_def)

lemma store_number_not_a_digit:
  "\<not> isHexDigit a \<Longrightarrow> \<not> isWhiteSpace a \<Longrightarrow> a \<noteq> 0x2B \<Longrightarrow> a \<noteq> 0x2D \<Longrightarrow>
   store_number (parseInt16 [a, b]) = 0"
  by (simp add: parseInt16_pair store_number_def)

lemma store_number_one_digit:
  assumes "digitValue a = Some d" and "\<not> isHexDigit b"
  shows "store_number (parseInt16 [a, b]) = of_nat d"
proof -
  have h: "isHexDigit a" using assms(1) by (simp add: isHexDigit_def)
  note sp = isHexDigit_not_special [OF h]
  show ?thesis
  proof (cases "a = 0x30 \<and> (b = 0x78 \<or> b = 0x58)")
    case True
    then have "d = 0" using assms(1) by (simp add: digitValue_def)
    then show ?thesis using True sp by (simp add: parseInt16_pair store_number_def)
  next
    case False
    then show ?thesis using sp h assms
      by (auto simp: parseInt16_pair store_number_def ToUint8_def)
  qed
qed

lemma store_number_two_digits:
  assumes "digitValue a = Some da" and "digitValue b = Some db"
  shows "store_number (parseInt16 [a, b]) = of_nat (16 * da + db)"
proof -
  have h: "isHexDigit a" "isHexDigit b" using assms by (simp_all add: isHexDigit_def)
  note sp = isHexDigit_not_special [OF h(1)] isHexDigit_not_special [OF h(2)]
  show ?thesis using sp h assms
    by (simp add: parseInt16_pair store_number_def ToUint8_def)
qed

declare toString16.simps [simp del]

lemma byteToHex_digits:
  assumes "da < 16" and "db < 16"
  shows "byteToHex (of_nat (16 * da + db)) = [hexDigit da, hexDigit db]"
proof -
  define n where "n = 16 * da + db"
  have "unat (of_nat n :: byte) = n mod 256" by (simp add: unat_of_nat take_bit_eq_mod)
  moreover have "n < 256" using assms by (simp add: n_def)
  ultimately have u: "unat (of_nat (16 * da + db) :: byte) = 16 * da + db"
    unfolding n_def by (simp del: of_nat_add of_nat_mult)
  show ?thesis
  proof (cases "da = 0")
    case True
    then show ?thesis using assms u
      by (simp add: byteToHex_def toString16.simps [of db] padStart_def hexDigit_def)
  next
    case False
    have "(16 * da + db) div 16 = da" "(16 * da + db) mod 16 = db" using assms by simp_all
    then have "toString16 (16 * da + db) = [hexDigit da, hexDigit db]"
      using False assms by (simp add: toString16.simps [of "16 * da + db"] toString16.simps [of da])
    then show ?thesis using u by (simp add: byteToHex_def padStart_def)
  qed
qed

lemma byteToHex_eq: "byteToHex b = [hexDigit (unat b div 16), hexDigit (unat b mod 16)]"
proof -
  have "unat b < 2 ^ LENGTH(8)" by (rule unsigned_less)
  then have lt: "unat b < 256" by simp
  then have d: "unat b div 16 < 16" by simp
  have "byteToHex (of_nat (16 * (unat b div 16) + unat b mod 16)) =
        [hexDigit (unat b div 16), hexDigit (unat b mod 16)]"
    using d by (intro byteToHex_digits) simp_all
  then show ?thesis by simp
qed

lemma length_Hex_encode: "length (Hex_encode bs) = 2 * length bs"
  by (induction bs) (simp_all add: Hex_encode_def byteToHex_eq)

lemma Hex_encode_append: "Hex_encode (xs @ ys) = Hex_encode xs @ Hex_encode ys"
  by (simp add: Hex_encode_def)

lemma Hex_encode_zeros: "Hex_encode (replicate k 0) = replicate (2 * k) 0x30"
  by (induction k) (simp_all add: Hex_encode_def byteToHex_eq hexDigit_def)

lemma hexDigit_digitValue:
  assumes "isLowerHex c" and "digitValue c = Some d"
  shows "hexDigit d = c"
proof -
  have "of_nat (unat c) = c" by simp
  moreover have "(48 \<le> unat c \<and> unat c \<le> 57 \<and> d = unat c - 48)
               \<or> (97 \<le> unat c \<and> unat c \<le> 102 \<and> d = unat c - 87)"
    using assms by (auto simp: isLowerHex_unat digitValue_def word_le_nat_alt split: if_splits)
  ultimately show ?thesis by (auto simp: hexDigit_def)
qed

lemma byteToHex_store_number:
  assumes "isLowerHex a" and "isLowerHex b"
  shows "byteToHex (store_number (parseInt16 [a, b])) = [a, b]"
proof -
  obtain da db where d: "digitValue a = Some da" "digitValue b = Some db"
    using assms [THEN isLowerHex_isHexDigit] by (auto simp: isHexDigit_def)
  have "byteToHex (store_number (parseInt16 [a, b])) = [hexDigit da, hexDigit db]"
    unfolding store_number_two_digits [OF d]
    using d [THEN digitValue_less] by (rule byteToHex_digits)
  then show ?thesis using assms d by (simp add: hexDigit_digitValue)
qed

lemma Hex_encode_decode_pairs:
  "even (length hex) \<Longrightarrow> list_all isLowerHex hex \<Longrightarrow> Hex_encode (decode_pairs hex) = hex"
proof (induction hex rule: decode_pairs.induct)
  case (1 a b rest)
  then show ?case by (simp add: Hex_encode_def byteToHex_store_number)
qed (simp_all add: Hex_encode_def)

lemma encodeInteger_Str_even:
  "even (length hex) \<Longrightarrow> encodeInteger (Str hex) = Inr (encodeInteger_bytes (decode_pairs hex))"
  by (simp add: encodeInteger_def Hex_decode_even)

lemma encodeInteger_Str_odd:
  "odd (length hex) \<Longrightarrow> encodeInteger (Str hex) = Inl InvalidHexLength"
  by (simp add: encodeInteger_def Hex_decode_odd)

lemma encodeInteger_Bytes: "encodeInteger (Bytes v) = Inr (encodeInteger_bytes v)"
  by (simp add: encodeInteger_def)

lemma encodeInteger_error: "encodeInteger v = Inl e \<Longrightarrow> e = InvalidHexLength"
  by (cases v) (auto simp: encodeInteger_def Hex_decode_def Let_def split: if_splits sum.splits)

lemma two_elements: "length xs = 2 \<Longrightarrow> xs = [xs ! 0, xs ! 1]"
  by (cases xs; cases "tl xs") auto

section \<open>Sequences and signatures\<close>

lemma length_encodeLength:
  assumes "0 \<le> n" and "n < 2 ^ 31"
  shows "1 \<le> length (encodeLength n)" and "length (encodeLength n) \<le> 5"
  using decodeLength_Inr_bounds [OF decodeLength_encodeLength_0 [OF assms]] by simp_all

lemma length_tlv:
  "int (length c) < 2 ^ 31 \<Longrightarrow> length (tlv tag c) \<le> length c + 6"
  "0 < length (tlv tag c)"
  using length_encodeLength(2) [of "int (length c)"] by (simp_all add: tlv_def)

lemma encodeInteger_bytes_tlv: "encodeInteger_bytes v = tlv 0x02 (der_content v)"
  by (simp add: encodeInteger_bytes_eq tlv_def)

lemma subarray_middle:
  "subarray (pre @ e @ post) (int (length pre)) (int (length pre) + int (length e)) = e"
proof -
  have "subarray (pre @ e @ post) (int (length pre)) (int (length pre) + int (length e))
        = take (nat (int (length e))) (drop (nat (int (length pre))) (pre @ e @ post))"
    by (subst subarray_in_range) simp_all
  then show ?thesis by simp
qed

lemma elements_loop_tlv:
  assumes "int (length c) < 2 ^ 31" and "int (length pre) < contentEnd"
  shows "elements_loop (pre @ tlv tag c @ post) contentEnd (int (length pre)) els =
         elements_loop (pre @ tlv tag c @ post) contentEnd
           (int (length pre) + int (length (tlv tag c))) (els @ [tlv tag c])"
proof -
  let ?data = "pre @ tlv tag c @ post"
  let ?enc = "encodeLength (int (length c))"
  have d: "decodeLength ?data (int (length pre) + 1) = Inr (int (length c), int (length ?enc))"
    using tlv_decodeLength [of "int (length c)" pre tag "c @ post"] assms(1)
    by (simp add: tlv_def)
  have t: "1 + int (length ?enc) + int (length c) = int (length (tlv tag c))"
    by (simp add: tlv_def)
  show ?thesis
    unfolding elements_loop_step [OF assms(2) d] t subarray_middle ..
qed

lemma decodeSequence_two:
  assumes "int (length c1) < 2 ^ 31" and "int (length c2) < 2 ^ 31"
    and "int (length (tlv t1 c1)) + int (length (tlv t2 c2)) < 2 ^ 31"
  shows "decodeSequence (encodeSequence [tlv t1 c1, tlv t2 c2]) 0 =
         Some (Inr ([tlv t1 c1, tlv t2 c2],
                    int (length (encodeSequence [tlv t1 c1, tlv t2 c2]))))"
proof -
  let ?e1 = "tlv t1 c1" and ?e2 = "tlv t2 c2"
  let ?n = "int (length ?e1) + int (length ?e2)"
  let ?L = "encodeLength ?n"
  let ?data = "0x30 # ?L @ ?e1 @ ?e2"
  have enc: "encodeSequence [?e1, ?e2] = ?data" by (simp add: encodeSequence_def)
  have g: "get ?data 0 = Some 0x30" by (rule get_Cons_0)
  have d: "decodeLength ?data (0 + 1) = Inr (?n, int (length ?L))"
    using tlv_decodeLength [of ?n "[]" "0x30" "?e1 @ ?e2"] assms(3) by simp
  have fit: "0 + 1 + int (length ?L) + ?n \<le> int (length ?data)" by simp
  have pos: "0 < int (length ?e1)" "0 < int (length ?e2)"
    using length_tlv(2) [of t1 c1] length_tlv(2) [of t2 c2] by linarith+
  have l1: "int (length (0x30 # ?L)) = 1 + int (length ?L)" by simp
  have l2: "int (length (0x30 # ?L @ ?e1)) = 1 + int (length ?L) + int (length ?e1)" by simp
  have p1: "int (length (0x30 # ?L)) < 0 + 1 + int (length ?L) + ?n"
    unfolding l1 using pos by linarith
  have p2: "int (length (0x30 # ?L @ ?e1)) < 0 + 1 + int (length ?L) + ?n"
    unfolding l2 using pos by linarith
  have "elements_loop ?data (0 + 1 + int (length ?L) + ?n) (0 + 1 + int (length ?L)) []
        = elements_loop ((0x30 # ?L) @ ?e1 @ ?e2) (0 + 1 + int (length ?L) + ?n)
            (int (length (0x30 # ?L))) []"
    by simp
  also have "\<dots> = elements_loop ((0x30 # ?L) @ ?e1 @ ?e2) (0 + 1 + int (length ?L) + ?n)
            (int (length (0x30 # ?L)) + int (length ?e1)) ([] @ [?e1])"
    using assms(1) p1 by (rule elements_loop_tlv)
  also have "\<dots> = elements_loop ((0x30 # ?L @ ?e1) @ ?e2 @ []) (0 + 1 + int (length ?L) + ?n)
            (int (length (0x30 # ?L @ ?e1))) [?e1]"
    by (simp add: add.assoc)
  also have "\<dots> = elements_loop ((0x30 # ?L @ ?e1) @ ?e2 @ []) (0 + 1 + int (length ?L) + ?n)
            (int (length (0x30 # ?L @ ?e1)) + int (length ?e2)) ([?e1] @ [?e2])"
    using assms(2) p2 by (rule elements_loop_tlv)
  also have "\<dots> = Some (Inr [?e1, ?e2])"
    by (simp add: elements_loop_stop add.assoc)
  finally have l: "elements_loop ?data (0 + 1 + int (length ?L) + ?n) (0 + 1 + int (length ?L)) []
                   = Some (Inr [?e1, ?e2])" .
  show ?thesis
    unfolding enc decodeSequence_content [OF g d fit] l by simp
qed

lemma decodeInteger_encodeInteger_bytes:
  assumes "int (length v) + 1 < 2 ^ 31"
  shows "\<exists>n. decodeInteger (encodeInteger_bytes v) 0 = Inr (strip_leading_zeros v, n)"
proof -
  have "int (length (der_content v)) < 2 ^ 31"
    using assms length_der_content [of v] by linarith
  then show ?thesis
    using decodeInteger_tlv [of "der_content v" "[]" "[]"]
    by (simp add: encodeInteger_bytes_eq unpad_der_content)
qed

lemma decodeSignature_encoded:
  assumes "int (length r) + int (length s) + 14 < 2 ^ 31"
  shows "decodeSignature (encodeSequence [encodeInteger_bytes r, encodeInteger_bytes s]) =
         Some (Inr (Hex_encode (strip_leading_zeros r), Hex_encode (strip_leading_zeros s)))"
proof -
  let ?c1 = "der_content r" and ?c2 = "der_content s"
  have c: "int (length ?c1) \<le> int (length r) + 1" "int (length ?c2) \<le> int (length s) + 1"
    using length_der_content [of r] length_der_content [of s] by linarith+
  have b: "int (length ?c1) < 2 ^ 31" "int (length ?c2) < 2 ^ 31"
    using c assms by linarith+
  have "int (length (tlv 0x02 ?c1)) \<le> int (length ?c1) + 6"
    "int (length (tlv 0x02 ?c2)) \<le> int (length ?c2) + 6"
    using length_tlv(1) [OF b(1), of "0x02"] length_tlv(1) [OF b(2), of "0x02"] by linarith+
  then have t: "int (length (tlv 0x02 ?c1)) + int (length (tlv 0x02 ?c2)) < 2 ^ 31"
    using c assms by linarith
  have seq: "decodeSequence (encodeSequence [encodeInteger_bytes r, encodeInteger_bytes s]) 0 =
             Some (Inr ([encodeInteger_bytes r, encodeInteger_bytes s],
                        int (length (encodeSequence [encodeInteger_bytes r, encodeInteger_bytes s]))))"
    unfolding encodeInteger_bytes_tlv using b t by (rule decodeSequence_two)
  obtain n1 where i1: "decodeInteger (encodeInteger_bytes r) 0 = Inr (strip_leading_zeros r, n1)"
    using decodeInteger_encodeInteger_bytes [of r] assms by force
  obtain n2 where i2: "decodeInteger (encodeInteger_bytes s) 0 = Inr (strip_leading_zeros s, n2)"
    using decodeInteger_encodeInteger_bytes [of s] assms by force
  show ?thesis unfolding decodeSignature_def seq using i1 i2 by simp
qed

lemma padStart_Hex_encode:
  assumes "length v = 32"
  shows "padStart (Hex_encode (strip_leading_zeros v)) 64 0x30 = Hex_encode v"
proof -
  obtain k where k: "v = replicate k 0 @ strip_leading_zeros v"
    using strip_leading_zeros_prefix by blast
  then have "length v = k + length (strip_leading_zeros v)"
    by (metis length_append length_replicate)
  then have l: "64 - length (Hex_encode (strip_leading_zeros v)) = 2 * k"
    using assms by (simp add: length_Hex_encode)
  have "Hex_encode v = Hex_encode (replicate k 0) @ Hex_encode (strip_leading_zeros v)"
    using k Hex_encode_append by metis
  then show ?thesis by (simp add: padStart_def l Hex_encode_zeros)
qed

lemma derToRaw_encoded:
  assumes "length r = 32" and "length s = 32"
  shows "derToRaw (encodeSequence [encodeInteger_bytes r, encodeInteger_bytes s]) =
         Some (Inr (Hex_encode r @ Hex_encode s))"
proof -
  have "int (length r) + int (length s) + 14 < 2 ^ 31" using assms by simp
  then show ?thesis
    using assms
    by (simp add: derToRaw_def decodeSignature_encoded padStart_Hex_encode Let_def)
qed

lemma rawToDer_Bytes:
  assumes "length raw = 64"
  shows "rawToDer (Bytes raw) =
         Inr (encodeSequence [encodeInteger_bytes (take 32 raw), encodeInteger_bytes (drop 32 raw)])"
proof -
  have "subarray raw 0 32 = take 32 raw" using assms by (subst subarray_in_range) simp_all
  moreover have "subarray raw 32 64 = drop 32 raw" using assms by (subst subarray_in_range) simp_all
  ultimately show ?thesis
    using assms by (simp add: rawToDer_def encodeSignature_def encodeInteger_Bytes Let_def)
qed

lemma raw_bytes_roundtrip:
  assumes "length raw = 64"
  shows "\<exists>der. rawToDer (Bytes raw) = Inr der \<and> derToRaw der = Some (Inr (Hex_encode raw))"
proof -
  have "derToRaw (encodeSequence [encodeInteger_bytes (take 32 raw), encodeInteger_bytes (drop 32 raw)])
        = Some (Inr (Hex_encode (take 32 raw) @ Hex_encode (drop 32 raw)))"
    using assms by (intro derToRaw_encoded) simp_all
  also have "Hex_encode (take 32 raw) @ Hex_encode (drop 32 raw) = Hex_encode raw"
    by (simp add: Hex_encode_append [symmetric])
  finally show ?thesis using rawToDer_Bytes [OF assms] by simp
qed

lemma isLowerHex_hexDigit: "d < 16 \<Longrightarrow> isLowerHex (hexDigit d)"
proof -
  assume d: "d < 16"
  have u: "unat (of_nat n :: code_unit) = n" if "n < 65536" for n
    using that by (simp add: unat_of_nat take_bit_eq_mod)
  show ?thesis
  proof (cases "d < 10")
    case True
    then have "unat (of_nat (48 + d) :: code_unit) = 48 + d" by (intro u) simp
    then show ?thesis using True
      unfolding hexDigit_def isLowerHex_unat by (simp del: of_nat_add)
  next
    case False
    have "unat (of_nat (87 + d) :: code_unit) = 87 + d" using d by (intro u) simp
    then show ?thesis using False d
      unfolding hexDigit_def isLowerHex_unat by (simp del: of_nat_add)
  qed
qed

lemma isLowerHex_Hex_encode: "list_all isLowerHex (Hex_encode bs)"
proof (induction bs)
  case Nil
  then show ?case by (simp add: Hex_encode_def)
next
  case (Cons b bs)
  have "unat b < 2 ^ LENGTH(8)" by (rule unsigned_less)
  then have "unat b div 16 < 16" by simp
  then show ?case using Cons
    by (simp add: Hex_encode_def byteToHex_eq isLowerHex_hexDigit)
qed

lemma strip_leading_zeros_id:
  "length v \<le> 1 \<or> hd v \<noteq> 0 \<Longrightarrow> strip_leading_zeros v = v"
  by (cases v) (auto simp: strip_leading_zeros_cases strip_leading_zeros_def)

lemma encodeInteger_component:
  "lowercase_hex_component v \<Longrightarrow>
   encodeInteger v = Inr (encodeInteger_bytes (component_bytes v))"
  by (cases v)
    (simp_all add: lowercase_hex_component_def component_bytes_def encodeInteger_Str_even
      encodeInteger_Bytes)

lemma Hex_encode_component:
  "lowercase_hex_component v \<Longrightarrow> Hex_encode (component_bytes v) = component_hex v"
  by (cases v)
    (simp_all add: lowercase_hex_component_def component_bytes_def component_hex_def
      Hex_encode_decode_pairs)

section \<open>The length field of an encoded INTEGER\<close>







section \<open>The claims\<close>

subsection \<open>Claim C1\<close>

text \<open>
  Claim C1. For every raw signature of 64 bytes, \<open>rawToDer\<close> succeeds, \<open>decodeSignature\<close>
  of its result gives two hexadecimal strings that \<open>padStart\<close> brings back to the 64
  characters of the first and of the last 32 bytes, and \<open>derToRaw\<close> returns the 128
  lowercase hexadecimal characters of the signature. For every raw signature given as a
  string of 128 lowercase hexadecimal characters, \<open>rawToDer\<close> succeeds and \<open>derToRaw\<close>
  of its result returns the string.
\<close>

theorem derToRaw_rawToDer:
  "(length raw = 64 \<longrightarrow>
      (\<exists>der r s. rawToDer (Bytes raw) = Inr der
         \<and> decodeSignature der = Some (Inr (r, s))
         \<and> padStart r 64 0x30 = Hex_encode (take 32 raw) \<and> length (padStart r 64 0x30) = 64
         \<and> padStart s 64 0x30 = Hex_encode (drop 32 raw) \<and> length (padStart s 64 0x30) = 64
         \<and> derToRaw der = Some (Inr (Hex_encode raw)))
      \<and> length (Hex_encode raw) = 128 \<and> list_all isLowerHex (Hex_encode raw))
   \<and> (length hex = 128 \<and> list_all isLowerHex hex \<longrightarrow>
      (\<exists>der. rawToDer (Str hex) = Inr der \<and> derToRaw der = Some (Inr hex)))"
proof (intro conjI impI)
  assume l: "length raw = 64"
  let ?r = "take 32 raw" and ?s = "drop 32 raw"
  let ?der = "encodeSequence [encodeInteger_bytes ?r, encodeInteger_bytes ?s]"
  have lr: "length ?r = 32" "length ?s = 32" using l by simp_all
  have b: "int (length ?r) + int (length ?s) + 14 < 2 ^ 31" using lr by simp
  have e: "Hex_encode ?r @ Hex_encode ?s = Hex_encode raw"
    by (simp add: Hex_encode_append [symmetric])
  have "rawToDer (Bytes raw) = Inr ?der" using l by (rule rawToDer_Bytes)
  moreover have "decodeSignature ?der =
      Some (Inr (Hex_encode (strip_leading_zeros ?r), Hex_encode (strip_leading_zeros ?s)))"
    using b by (rule decodeSignature_encoded)
  moreover have "padStart (Hex_encode (strip_leading_zeros ?r)) 64 0x30 = Hex_encode ?r"
    "padStart (Hex_encode (strip_leading_zeros ?s)) 64 0x30 = Hex_encode ?s"
    using lr by (simp_all add: padStart_Hex_encode)
  moreover have "length (Hex_encode ?r) = 64" "length (Hex_encode ?s) = 64"
    using lr by (simp_all add: length_Hex_encode)
  moreover have "derToRaw ?der = Some (Inr (Hex_encode raw))"
    using derToRaw_encoded [OF lr] e by simp
  ultimately show "\<exists>der r s. rawToDer (Bytes raw) = Inr der
         \<and> decodeSignature der = Some (Inr (r, s))
         \<and> padStart r 64 0x30 = Hex_encode (take 32 raw) \<and> length (padStart r 64 0x30) = 64
         \<and> padStart s 64 0x30 = Hex_encode (drop 32 raw) \<and> length (padStart s 64 0x30) = 64
         \<and> derToRaw der = Some (Inr (Hex_encode raw))"
    by (intro exI [of _ ?der] exI [of _ "Hex_encode (strip_leading_zeros ?r)"]
        exI [of _ "Hex_encode (strip_leading_zeros ?s)"]) simp
  show "length (Hex_encode raw) = 128" using l by (simp add: length_Hex_encode)
  show "list_all isLowerHex (Hex_encode raw)" by (rule isLowerHex_Hex_encode)
next
  assume a: "length hex = 128 \<and> list_all isLowerHex hex"
  then have ev: "even (length hex)" by simp
  have l: "length (decode_pairs hex) = 64" using a by (simp add: length_decode_pairs)
  have "rawToDer (Str hex) = rawToDer (Bytes (decode_pairs hex))"
    using a l ev by (simp add: rawToDer_def Hex_decode_even)
  moreover have "Hex_encode (decode_pairs hex) = hex"
    using a ev by (simp add: Hex_encode_decode_pairs)
  ultimately show "\<exists>der. rawToDer (Str hex) = Inr der \<and> derToRaw der = Some (Inr hex)"
    using raw_bytes_roundtrip [OF l] by simp
qed

text \<open>
  Instances: the signature with \<open>r = 5\<close> and all bits of \<open>s\<close> set, and the string of 128
  characters \<open>0\<close>.
\<close>

theorem derToRaw_rawToDer_witness:
  "length (replicate 31 0x00 @ [0x05] @ replicate 32 0xFF :: byte list) = 64
   \<and> (\<exists>der. rawToDer (Bytes (replicate 31 0x00 @ [0x05] @ replicate 32 0xFF)) = Inr der
          \<and> derToRaw der = Some (Inr (Hex_encode (replicate 31 0x00 @ [0x05] @ replicate 32 0xFF))))
   \<and> length (replicate 128 0x30 :: js_string) = 128
   \<and> list_all isLowerHex (replicate 128 0x30)
   \<and> (\<exists>der. rawToDer (Str (replicate 128 0x30)) = Inr der
          \<and> derToRaw der = Some (Inr (replicate 128 0x30)))"
proof -
  let ?raw = "replicate 31 0x00 @ [0x05] @ replicate 32 0xFF :: byte list"
  let ?hex = "replicate 128 0x30 :: js_string"
  have l: "length ?raw = 64" by simp
  have h: "length ?hex = 128 \<and> list_all isLowerHex ?hex"
    by (simp add: list_all_iff isLowerHex_def)
  note t = derToRaw_rawToDer [of ?raw ?hex]
  have a: "\<exists>der. rawToDer (Bytes ?raw) = Inr der \<and> derToRaw der = Some (Inr (Hex_encode ?raw))"
    using conjunct1 [OF t] l by blast
  have b: "\<exists>der. rawToDer (Str ?hex) = Inr der \<and> derToRaw der = Some (Inr ?hex)"
    using conjunct2 [OF t] h by blast
  show ?thesis using l h a b by blast
qed

subsection \<open>Claim C2\<close>

text \<open>
  Claim C2 says that \<open>decodeSignature\<close> after \<open>encodeSignature\<close> returns the pair it was
  given also when a component begins with redundant zero bytes. For \<open>r = 00 01\<close> and
  \<open>s = 01\<close> the pair that comes back is \<open>(01, 01)\<close>: the zero byte of \<open>r\<close> is gone.
\<close>

theorem decodeSignature_leading_zero_counterexample:
  "lowercase_hex_component (Bytes [0x00, 0x01]) \<and> lowercase_hex_component (Bytes [0x01])
   \<and> encodeSignature (Bytes [0x00, 0x01]) (Bytes [0x01]) =
       Inr [0x30, 0x06, 0x02, 0x01, 0x01, 0x02, 0x01, 0x01]
   \<and> decodeSignature [0x30, 0x06, 0x02, 0x01, 0x01, 0x02, 0x01, 0x01] =
       Some (Inr (js_str ''01'', js_str ''01''))
   \<and> component_hex (Bytes [0x00, 0x01]) = js_str ''0001''
   \<and> js_str ''01'' \<noteq> js_str ''0001''"
proof -
  have s1: "strip_leading_zeros [0x00, 0x01] = [0x01]" "strip_leading_zeros [0x01] = [0x01]"
    by (simp_all add: strip_leading_zeros_def)
  have e1: "encodeInteger_bytes [0x00, 0x01] = [0x02, 0x01, 0x01]"
    "encodeInteger_bytes [0x01] = [0x02, 0x01, 0x01]"
    by (simp_all add: encodeInteger_bytes_eq der_content_def s1 encodeLength_short ToUint8_def)
  have enc: "encodeSequence [encodeInteger_bytes [0x00, 0x01], encodeInteger_bytes [0x01]] =
             [0x30, 0x06, 0x02, 0x01, 0x01, 0x02, 0x01, 0x01]"
    by (simp add: e1 encodeSequence_def encodeLength_short ToUint8_def)
  have h: "Hex_encode [0x01] = js_str ''01''" "Hex_encode [0x00, 0x01] = js_str ''0001''"
    by (simp_all add: Hex_encode_def byteToHex_eq hexDigit_def js_str_def)
  have "decodeSignature (encodeSequence [encodeInteger_bytes [0x00, 0x01], encodeInteger_bytes [0x01]])
        = Some (Inr (Hex_encode (strip_leading_zeros [0x00, 0x01]),
                     Hex_encode (strip_leading_zeros [0x01])))"
    by (rule decodeSignature_encoded) simp
  then have d: "decodeSignature [0x30, 0x06, 0x02, 0x01, 0x01, 0x02, 0x01, 0x01] =
       Some (Inr (js_str ''01'', js_str ''01''))"
    unfolding enc s1 h .
  have "encodeSignature (Bytes [0x00, 0x01]) (Bytes [0x01]) =
       Inr [0x30, 0x06, 0x02, 0x01, 0x01, 0x02, 0x01, 0x01]"
    using enc by (simp add: encodeSignature_def encodeInteger_Bytes)
  then show ?thesis using d h
    by (simp add: lowercase_hex_component_def component_hex_def js_str_def)
qed

text \<open>
  Claim C2, amended. For components given as byte arrays or as lowercase hexadecimal
  strings of even length, of less than \<open>2^31 - 14\<close> bytes together, \<open>encodeSignature\<close>
  succeeds and \<open>decodeSignature\<close> of its result returns each component, in lowercase
  hexadecimal, without its redundant leading zero bytes; this is the pair that was given
  when no component has such a byte, that is when each is at most one byte long or begins
  with a byte that is not zero.
\<close>

theorem decodeSignature_encodeSignature:
  assumes "lowercase_hex_component r" and "lowercase_hex_component s"
    and "int (length (component_bytes r)) + int (length (component_bytes s)) + 14 < 2 ^ 31"
  shows "\<exists>der. encodeSignature r s = Inr der
           \<and> decodeSignature der =
               Some (Inr (Hex_encode (strip_leading_zeros (component_bytes r)),
                          Hex_encode (strip_leading_zeros (component_bytes s))))
           \<and> ((length (component_bytes r) \<le> 1 \<or> hd (component_bytes r) \<noteq> 0x00)
                \<and> (length (component_bytes s) \<le> 1 \<or> hd (component_bytes s) \<noteq> 0x00) \<longrightarrow>
               decodeSignature der = Some (Inr (component_hex r, component_hex s)))"
proof -
  let ?rb = "component_bytes r" and ?sb = "component_bytes s"
  let ?der = "encodeSequence [encodeInteger_bytes ?rb, encodeInteger_bytes ?sb]"
  have e: "encodeSignature r s = Inr ?der"
    using assms(1,2) by (simp add: encodeSignature_def encodeInteger_component)
  have d: "decodeSignature ?der =
           Some (Inr (Hex_encode (strip_leading_zeros ?rb), Hex_encode (strip_leading_zeros ?sb)))"
    using assms(3) by (rule decodeSignature_encoded)
  have "decodeSignature ?der = Some (Inr (component_hex r, component_hex s))"
    if "(length ?rb \<le> 1 \<or> hd ?rb \<noteq> 0x00) \<and> (length ?sb \<le> 1 \<or> hd ?sb \<noteq> 0x00)"
    using that d assms(1,2) by (simp add: strip_leading_zeros_id Hex_encode_component)
  then show ?thesis using e d by blast
qed

text \<open>An instance: \<open>r = 80ff\<close> as a string and \<open>s = 00\<close> as a byte.\<close>

theorem decodeSignature_encodeSignature_witness:
  "lowercase_hex_component (Str (js_str ''80ff'')) \<and> lowercase_hex_component (Bytes [0x00])
   \<and> (\<exists>der. encodeSignature (Str (js_str ''80ff'')) (Bytes [0x00]) = Inr der
          \<and> decodeSignature der = Some (Inr (js_str ''80ff'', js_str ''00'')))"
proof -
  have j: "js_str ''80ff'' = [0x38, 0x30, 0x66, 0x66]" by (simp add: js_str_def)
  have c: "decode_pairs (js_str ''80ff'') = [0x80, 0xFF]"
    unfolding j
    using store_number_two_digits [of "0x38" 8 "0x30" 0]
      store_number_two_digits [of "0x66" 15 "0x66" 15]
    by (simp add: digitValue_def)
  have v: "lowercase_hex_component (Str (js_str ''80ff''))"
    "lowercase_hex_component (Bytes [0x00])"
    by (simp_all add: lowercase_hex_component_def j isLowerHex_def)
  have h: "Hex_encode [0x00] = js_str ''00''"
    by (simp add: Hex_encode_def byteToHex_eq hexDigit_def js_str_def)
  have b: "int (length (component_bytes (Str (js_str ''80ff''))))
           + int (length (component_bytes (Bytes [0x00]))) + 14 < 2 ^ 31"
    by (simp add: c component_bytes_def)
  show ?thesis
    using decodeSignature_encodeSignature [OF v b] v
    by (auto simp: c h component_bytes_def component_hex_def)
qed

subsection \<open>Claim C3\<close>




subsection \<open>Claim C4\<close>

text \<open>
  Claim C4 speaks of every well-formed DER INTEGER in the buffer. An INTEGER with \<open>2^32\<close>
  content bytes is well formed, its length field is \<open>85 01 00 00 00 00\<close>, and
  \<open>decodeInteger\<close> throws on it: \<open>decodeLength\<close> reads no more than four length bytes.
\<close>

theorem decodeInteger_five_length_bytes_counterexample:
  "be_value [0x01, 0x00, 0x00, 0x00, 0x00] = int (length (0x01 # replicate 4294967295 (0x00 :: byte)))
   \<and> decodeInteger ([0x02] @ [0x85, 0x01, 0x00, 0x00, 0x00, 0x00]
                       @ 0x01 # replicate 4294967295 0x00) 0
       = Inl UnsupportedLongForm"
proof -
  let ?data = "[0x02] @ [0x85, 0x01, 0x00, 0x00, 0x00, 0x00] @ 0x01 # replicate 4294967295 (0x00 :: byte)"
  have g0: "get ?data 0 = Some 0x02" by (simp add: get_Cons_0)
  have g1: "get ?data (0 + 1) = Some 0x85" by (simp add: get_Cons_1 get_Cons_0)
  have "decodeLength ?data (0 + 1) = Inl UnsupportedLongForm"
    using g1 by (rule decodeLength_unsupported) simp_all
  then have "decodeInteger ?data 0 = Inl UnsupportedLongForm"
    using g0 by (intro decodeInteger_length_error)
  then show ?thesis by (simp add: be_value_def)
qed

text \<open>
  Claim C4, amended. For every DER INTEGER (the tag \<open>0x02\<close>, the length as \<open>encodeLength\<close>
  writes it, the content) with less than \<open>2^31\<close> content bytes, anywhere in a buffer,
  \<open>decodeInteger\<close> at its offset returns the content without its first byte when the
  content has more than one byte and starts with \<open>0x00\<close>, and the content unchanged
  otherwise; \<open>bytesRead\<close> is the size of tag, length and content together.
\<close>

theorem decodeInteger_well_formed:
  assumes "int (length content) < 2 ^ 31"
  shows "decodeInteger (pre @ [0x02] @ encodeLength (int (length content)) @ content @ post)
           (int (length pre)) =
         Inr (if length content > 1 \<and> hd content = 0x00 then tl content else content,
              int (length ([0x02] @ encodeLength (int (length content)) @ content)))"
  unfolding unpad_if using decodeInteger_tlv [OF assms, of pre post] by simp

text \<open>
  Instances: \<open>02 01 00\<close> decodes to the single byte \<open>00\<close>; \<open>02 02 00 80\<close>, inside a
  larger buffer, to \<open>80\<close>.
\<close>

theorem decodeInteger_well_formed_witness:
  "int (length [0x00 :: byte]) < 2 ^ 31
   \<and> decodeInteger [0x02, 0x01, 0x00] 0 = Inr ([0x00], 3)
   \<and> decodeInteger [0x30, 0x02, 0x02, 0x00, 0x80, 0x05] 1 = Inr ([0x80], 4)
   \<and> decodeInteger [0x02, 0x02, 0x00, 0x7F] 0 = Inr ([0x7F], 4)"
  using decodeInteger_well_formed [of "[0x00]" "[]" "[]"]
    decodeInteger_well_formed [of "[0x00, 0x80]" "[0x30]" "[0x05]"]
    decodeInteger_well_formed [of "[0x00, 0x7F]" "[]" "[]"]
  by (simp add: encodeLength_short ToUint8_def)

subsection \<open>Claim C5\<close>

text \<open>
  Claim C5. \<open>decodeLength\<close> throws for every long-form first byte that declares more
  than four length bytes, and for \<open>0x80\<close>, which declares none; the exception is what
  \<open>decodeInteger\<close> and \<open>decodeSequence\<close> (for their own length and, in the loop, for the
  length of an element) and \<open>decodeSignature\<close> then raise. For a first byte declaring one
  to four length bytes that lie inside the buffer it returns a result.
\<close>

theorem decodeLength_four_length_bytes_limit:
  "(get data off = Some b \<and> 128 \<le> uint b \<and> (uint b - 128 = 0 \<or> 4 < uint b - 128) \<longrightarrow>
      decodeLength data off = Inl UnsupportedLongForm
      \<and> (get data (off - 1) = Some 0x02 \<longrightarrow>
           decodeInteger data (off - 1) = Inl UnsupportedLongForm)
      \<and> (get data (off - 1) = Some 0x30 \<longrightarrow>
           decodeSequence data (off - 1) = Some (Inl UnsupportedLongForm))
      \<and> (off - 1 < contentEnd \<longrightarrow>
           elements_loop data contentEnd (off - 1) elements = Some (Inl UnsupportedLongForm))
      \<and> (off = 1 \<and> get data 0 = Some 0x30 \<longrightarrow>
           decodeSignature data = Some (Inl UnsupportedLongForm)))
   \<and> (get data off = Some b \<and> 1 \<le> uint b - 128 \<and> uint b - 128 \<le> 4
        \<and> off + 1 + (uint b - 128) \<le> int (length data) \<longrightarrow>
      (\<exists>len. decodeLength data off = Inr (len, 1 + (uint b - 128))))"
proof (intro conjI impI; (elim conjE)?)
  assume g: "get data off = Some b" and h: "128 \<le> uint b"
    and bad: "uint b - 128 = 0 \<or> 4 < uint b - 128"
  have m: "uint b mod 128 = uint b - 128"
    using h uint_byte_bounds [of b] by (intro mod_128_long)
  show d: "decodeLength data off = Inl UnsupportedLongForm"
    using g h bad m by (intro decodeLength_unsupported [of data off b]) simp_all
  then have d': "decodeLength data (off - 1 + 1) = Inl UnsupportedLongForm" by simp
  show "decodeInteger data (off - 1) = Inl UnsupportedLongForm"
    if "get data (off - 1) = Some 0x02"
    using that d' by (rule decodeInteger_length_error)
  show s: "decodeSequence data (off - 1) = Some (Inl UnsupportedLongForm)"
    if "get data (off - 1) = Some 0x30"
    using that d' by (rule decodeSequence_length_error)
  show "elements_loop data contentEnd (off - 1) elements = Some (Inl UnsupportedLongForm)"
    if "off - 1 < contentEnd"
    using that d' by (rule elements_loop_error)
  show "decodeSignature data = Some (Inl UnsupportedLongForm)"
    if "off = 1" "get data 0 = Some 0x30"
    using that s by (simp add: decodeSignature_sequence_error)
next
  assume g: "get data off = Some b" and k: "1 \<le> uint b - 128" "uint b - 128 \<le> 4"
    and fit: "off + 1 + (uint b - 128) \<le> int (length data)"
  have h: "128 \<le> uint b" using k by simp
  have m: "uint b mod 128 = uint b - 128"
    using h uint_byte_bounds [of b] by (intro mod_128_long)
  show "\<exists>len. decodeLength data off = Inr (len, 1 + (uint b - 128))"
    using decodeLength_long_form [OF g h m k fit] by blast
qed

text \<open>Instances: five length bytes are refused, four are read.\<close>

theorem decodeLength_four_length_bytes_limit_witness:
  "decodeLength [0x02, 0x85, 1, 2, 3, 4, 5] 1 = Inl UnsupportedLongForm
   \<and> decodeInteger [0x02, 0x85, 1, 2, 3, 4, 5] 0 = Inl UnsupportedLongForm
   \<and> (\<exists>len. decodeLength [0x02, 0x84, 1, 2, 3, 4] 1 = Inr (len, 5))"
  using decodeLength_four_length_bytes_limit [of "[0x02, 0x85, 1, 2, 3, 4, 5]" 1 "0x85" 0 "[]"]
    decodeLength_four_length_bytes_limit [of "[0x02, 0x84, 1, 2, 3, 4]" 1 "0x84" 0 "[]"]
  by (simp add: get_def)

subsection \<open>Claim C6\<close>

text \<open>
  Claim C6. For every length \<open>n\<close> with \<open>0 \<le> n < 2^31\<close>, \<open>encodeLength n\<close> is the
  single byte \<open>n\<close> when \<open>n < 128\<close>; otherwise its first byte is \<open>0x80\<close> or-ed with the
  number of bytes that follow, and those bytes (one to four, the first not zero) write
  \<open>n\<close> in big-endian order. \<open>decodeLength\<close> at offset 0 of that encoding returns the
  length \<open>n\<close> and, as \<open>bytesRead\<close>, the size of the encoding.
\<close>

theorem encodeLength_decodeLength_roundtrip:
  assumes "0 \<le> n" and "n < 2 ^ 31"
  shows "(n < 128 \<longrightarrow> map uint (encodeLength n) = [n])
       \<and> (128 \<le> n \<longrightarrow>
            (\<exists>bs. encodeLength n = ToUint8 (js_or 0x80 (int (length bs))) # bs
                  \<and> 1 \<le> length bs \<and> length bs \<le> 4 \<and> be_value bs = n \<and> hd bs \<noteq> 0))
       \<and> decodeLength (encodeLength n) 0 = Inr (n, int (length (encodeLength n)))"
proof (intro conjI impI)
  assume "n < 128"
  then show "map uint (encodeLength n) = [n]"
    using assms(1) by (simp add: encodeLength_short uint_ToUint8)
next
  assume "128 \<le> n"
  then show "\<exists>bs. encodeLength n = ToUint8 (js_or 0x80 (int (length bs))) # bs
                  \<and> 1 \<le> length bs \<and> length bs \<le> 4 \<and> be_value bs = n \<and> hd bs \<noteq> 0"
    using assms(2) by (rule encodeLength_long_shape)
next
  show "decodeLength (encodeLength n) 0 = Inr (n, int (length (encodeLength n)))"
    using assms by (rule decodeLength_encodeLength_0)
qed

text \<open>
  An instance of the round trip: the length 300 is written \<open>82 01 2C\<close> and read back.
\<close>

theorem encodeLength_decodeLength_roundtrip_witness:
  "(0::int) \<le> 300 \<and> (300::int) < 2 ^ 31 \<and> encodeLength 300 = [0x82, 0x01, 0x2C]
   \<and> decodeLength [0x82, 0x01, 0x2C] 0 = Inr (300, 3)"
proof -
  have e: "encodeLength 300 = [0x82, 0x01, 0x2C]"
    by (simp add: encodeLength_2 ToUint8_def)
  have a: "(0::int) \<le> 300" "(300::int) < 2 ^ 31" by simp_all
  show ?thesis
    using encodeLength_decodeLength_roundtrip [OF a] e by simp
qed

subsection \<open>Claim C7\<close>

text \<open>
  Claim C7 asks that \<open>decodeInteger\<close> and \<open>decodeSequence\<close> throw whenever the declared
  content length extends past the end of the buffer. On a six-byte buffer declaring
  \<open>2^31\<close> content bytes both return a result instead: the length is read as negative
  and the bounds check passes.
\<close>

theorem overlong_declared_length_accepted:
  "decodeInteger [0x02, 0x84, 0x80, 0x00, 0x00, 0x00] 0 = Inr ([], - 2147483642)
   \<and> decodeSequence [0x30, 0x84, 0x80, 0x00, 0x00, 0x00] 0 = Some (Inr ([], - 2147483642))"
proof -
  have t: "ToInt32 2147483648 = - 2147483648"
    using ToInt32_big [of 2147483648] by simp
  have d: "decodeLength (tag # [0x84, 0x80, 0x00, 0x00, 0x00]) (0 + 1) = Inr (- 2147483648, 5)" for tag
    using decodeLength_four_bytes [of "tag # [0x84, 0x80, 0x00, 0x00, 0x00]" 1] t
    by (simp add: get_def be_value_def)
  have i: "decodeInteger [0x02, 0x84, 0x80, 0x00, 0x00, 0x00] 0 = Inr ([], - 2147483642)"
    using decodeInteger_value [OF _ d [of "0x02"]]
    by (simp add: get_def subarray_def rel_index_def unpad_def)
  have "elements_loop [0x30, 0x84, 0x80, 0x00, 0x00, 0x00] (0 + 1 + 5 + - 2147483648) (0 + 1 + 5) []
        = Some (Inr [])"
    by (rule elements_loop_stop) simp
  then have s: "decodeSequence [0x30, 0x84, 0x80, 0x00, 0x00, 0x00] 0 = Some (Inr ([], - 2147483642))"
    using decodeSequence_content [OF _ d [of "0x30"]] by (simp add: get_def)
  show ?thesis using i s by simp
qed

subsection \<open>Claim C8\<close>

text \<open>
  Claim C8. \<open>Hex.decode\<close> throws for every string of odd length, and so do
  \<open>encodeInteger\<close> and \<open>encodeSignature\<close> when such a string is one of their arguments.
  \<open>rawToDer\<close> throws as well: a string of odd length does not have 128 characters,
  which it checks before decoding.
\<close>

theorem Hex_decode_odd_length:
  "odd (length hex) \<longrightarrow>
     Hex_decode hex = Inl InvalidHexLength
     \<and> encodeInteger (Str hex) = Inl InvalidHexLength
     \<and> encodeSignature (Str hex) s = Inl InvalidHexLength
     \<and> encodeSignature r (Str hex) = Inl InvalidHexLength
     \<and> rawToDer (Str hex) = Inl RawStringLength"
proof
  assume o: "odd (length hex)"
  have r: "encodeSignature r (Str hex) = Inl InvalidHexLength"
  proof (cases "encodeInteger r")
    case (Inl e)
    then show ?thesis using encodeInteger_error [OF Inl] by (simp add: encodeSignature_def)
  next
    case (Inr enc)
    then show ?thesis using o by (simp add: encodeSignature_def encodeInteger_Str_odd)
  qed
  have "length hex \<noteq> 128" using o by auto
  then show "Hex_decode hex = Inl InvalidHexLength
     \<and> encodeInteger (Str hex) = Inl InvalidHexLength
     \<and> encodeSignature (Str hex) s = Inl InvalidHexLength
     \<and> encodeSignature r (Str hex) = Inl InvalidHexLength
     \<and> rawToDer (Str hex) = Inl RawStringLength"
    using o r by (simp add: Hex_decode_odd encodeInteger_Str_odd encodeSignature_def rawToDer_def)
qed

text \<open>An instance: the three-character string \<open>abc\<close>.\<close>

theorem Hex_decode_odd_length_witness:
  "odd (length (js_str ''abc'')) \<and> Hex_decode (js_str ''abc'') = Inl InvalidHexLength
   \<and> encodeInteger (Str (js_str ''abc'')) = Inl InvalidHexLength"
  using Hex_decode_odd_length [of "js_str ''abc''" "Bytes []" "Bytes []"]
  by (simp add: js_str_def)

subsection \<open>Claim C9\<close>

text \<open>
  Claim C9 says that every pair of characters with a character that is not a hexadecimal
  digit decodes to the byte \<open>0x00\<close>. The pair \<open>1g\<close> decodes to \<open>0x01\<close>: \<open>parseInt\<close>
  reads the digits in front of the first character that is not one.
\<close>

theorem Hex_decode_pair_counterexample:
  "\<not> isHexDigit 0x67 \<and> js_str ''1g'' = [0x31, 0x67]
   \<and> Hex_decode (js_str ''1g'') = Inr [0x01] \<and> Hex_decode (js_str ''1g'') \<noteq> Inr [0x00]"
proof -
  have n: "\<not> isHexDigit 0x67" by (simp add: isHexDigit_def digitValue_def)
  have s: "js_str ''1g'' = [0x31, 0x67]" by (simp add: js_str_def)
  have d: "digitValue 0x31 = Some 1" by (simp add: digitValue_def)
  have "Hex_decode [0x31, 0x67] = Inr [0x01]"
    using store_number_one_digit [OF d n] by (simp add: Hex_decode_even)
  then show ?thesis using n s by simp
qed

text \<open>
  Claim C9, amended. For every string of even length \<open>Hex.decode\<close> returns a byte array
  without throwing, one byte for each pair of characters: the number \<open>parseInt(pair, 16)\<close>
  stored modulo 256, with \<open>NaN\<close> stored as 0. A pair whose first character is not a
  hexadecimal digit, white space or a sign decodes to \<open>0x00\<close>; a pair of a hexadecimal
  digit followed by a character that is not one decodes to the value of that digit. So
  \<open>encodeInteger\<close>, \<open>encodeSignature\<close> and \<open>rawToDer\<close> accept malformed hexadecimal
  strings of the right length.
\<close>

theorem Hex_decode_unvalidated:
  "(even (length hex) \<longrightarrow>
      (\<exists>bytes. Hex_decode hex = Inr bytes \<and> length bytes = length hex div 2
         \<and> (\<forall>i < length bytes.
               bytes ! i = store_number (parseInt16 [hex ! (2 * i), hex ! (2 * i + 1)])))
      \<and> (\<exists>enc. encodeInteger (Str hex) = Inr enc)
      \<and> (even (length hex2) \<longrightarrow> (\<exists>enc. encodeSignature (Str hex) (Str hex2) = Inr enc))
      \<and> (length hex = 128 \<longrightarrow> (\<exists>enc. rawToDer (Str hex) = Inr enc)))
   \<and> (\<not> isHexDigit a \<and> \<not> isWhiteSpace a \<and> a \<noteq> 0x2B \<and> a \<noteq> 0x2D \<longrightarrow>
        store_number (parseInt16 [a, b]) = 0x00)
   \<and> (digitValue a = Some d \<and> \<not> isHexDigit b \<longrightarrow>
        store_number (parseInt16 [a, b]) = of_nat d)"
proof (intro conjI impI)
  assume e: "even (length hex)"
  show "\<exists>bytes. Hex_decode hex = Inr bytes \<and> length bytes = length hex div 2
         \<and> (\<forall>i < length bytes.
               bytes ! i = store_number (parseInt16 [hex ! (2 * i), hex ! (2 * i + 1)]))"
    using e by (intro exI [of _ "decode_pairs hex"])
      (simp add: Hex_decode_even length_decode_pairs decode_pairs_nth)
  show "\<exists>enc. encodeInteger (Str hex) = Inr enc"
    using e by (simp add: encodeInteger_Str_even)
  show "\<exists>enc. encodeSignature (Str hex) (Str hex2) = Inr enc" if "even (length hex2)"
    using e that by (simp add: encodeSignature_def encodeInteger_Str_even)
  show "\<exists>enc. rawToDer (Str hex) = Inr enc" if "length hex = 128"
    using that by (simp add: rawToDer_def Hex_decode_even encodeSignature_def encodeInteger_Bytes)
next
  assume "\<not> isHexDigit a \<and> \<not> isWhiteSpace a \<and> a \<noteq> 0x2B \<and> a \<noteq> 0x2D"
  then show "store_number (parseInt16 [a, b]) = 0x00"
    by (simp add: store_number_not_a_digit)
next
  assume "digitValue a = Some d \<and> \<not> isHexDigit b"
  then show "store_number (parseInt16 [a, b]) = of_nat d"
    by (simp add: store_number_one_digit)
qed

text \<open>An instance: \<open>g11g\<close> decodes to the bytes \<open>00 01\<close>.\<close>

theorem Hex_decode_unvalidated_witness:
  "even (length [0x67, 0x31, 0x31, 0x67 :: code_unit])
   \<and> Hex_decode [0x67, 0x31, 0x31, 0x67] = Inr [0x00, 0x01]
   \<and> (\<exists>enc. encodeInteger (Str [0x67, 0x31, 0x31, 0x67]) = Inr enc)"
proof -
  let ?hex = "[0x67, 0x31, 0x31, 0x67 :: code_unit]"
  note t1 = Hex_decode_unvalidated [of ?hex "[]" "0x67" "0x31" 1]
  note t2 = Hex_decode_unvalidated [of ?hex "[]" "0x31" "0x67" 1]
  have e: "even (length ?hex)" by simp
  have p1: "store_number (parseInt16 [0x67, 0x31]) = 0"
    using conjunct1 [OF conjunct2 [OF t1]]
    by (simp add: isHexDigit_def digitValue_def isWhiteSpace_def)
  have p2: "store_number (parseInt16 [0x31, 0x67]) = 1"
    using conjunct2 [OF conjunct2 [OF t2]] by (simp add: isHexDigit_def digitValue_def)
  obtain bytes where b: "Hex_decode ?hex = Inr bytes" "length bytes = length ?hex div 2"
    "\<forall>i < length bytes.
       bytes ! i = store_number (parseInt16 [?hex ! (2 * i), ?hex ! (2 * i + 1)])"
    and enc: "\<exists>enc. encodeInteger (Str ?hex) = Inr enc"
    using conjunct1 [OF t1] e by blast
  have l: "length bytes = 2" using b(2) by simp
  have "bytes ! 0 = 0" "bytes ! 1 = 1" using b(3) l p1 p2 by (simp_all add: eval_nat_numeral)
  then have "bytes = [0, 1]" using two_elements [OF l] by simp
  then show ?thesis using b(1) enc e by simp
qed

subsection \<open>Claim C10\<close>

text \<open>
  Claim C10. When the byte after a tag is \<open>0x84\<close> (a long form with exactly four length
  bytes) and the first length byte is at least \<open>0x80\<close>, the declared length is at least
  \<open>2^31\<close>; \<open>decodeLength\<close> does not throw, it returns the declared length minus \<open>2^32\<close>,
  a negative number, with \<open>bytesRead = 5\<close>. The bounds checks that follow compare against
  that negative length and pass: \<open>decodeInteger\<close> returns a value and \<open>decodeSequence\<close>
  returns an empty list of elements.
\<close>

theorem decodeLength_negative_length:
  assumes "get data off = Some tag" and "get data (off + 1) = Some 0x84"
    and "get data (off + 2) = Some b1" and "128 \<le> uint b1"
    and "off + 6 \<le> int (length data)"
    and "declared = be_value (take 4 (drop (nat off + 2) data))"
  shows "2 ^ 31 \<le> declared \<and> declared - 2 ^ 32 < 0
       \<and> decodeLength data (off + 1) = Inr (declared - 2 ^ 32, 5)
       \<and> (tag = 0x02 \<longrightarrow> (\<exists>v. decodeInteger data off = Inr (v, 6 + (declared - 2 ^ 32))))
       \<and> (tag = 0x30 \<longrightarrow> decodeSequence data off = Some (Inr ([], 6 + (declared - 2 ^ 32))))"
proof -
  have o0: "0 \<le> off" using assms(1) by (auto simp: get_def split: if_splits)
  then have n: "nat (off + 1) + 1 = nat off + 2" by linarith
  have le: "nat off + 2 + 4 \<le> length data" using o0 assms(5) by linarith
  let ?m = "nat off + 2"
  have t: "take 4 (drop ?m data) = [data ! ?m, data ! (?m + 1), data ! (?m + 2), data ! (?m + 3)]"
    using le by (rule take4_drop)
  have "get data (off + 2) = Some (data ! ?m)"
    using o0 assms(5) by (simp add: get_def nat_add_distrib)
  then have b1: "data ! ?m = b1" using assms(3) by simp
  have v: "declared = ((uint b1 * 256 + uint (data ! (?m + 1))) * 256 + uint (data ! (?m + 2))) * 256
            + uint (data ! (?m + 3))"
    unfolding assms(6) t b1 [symmetric] by (simp add: be_value_def)
  note rng = four_bytes_range [OF uint_byte_bounds [of b1] uint_byte_bounds [of "data ! (?m + 1)"]
      uint_byte_bounds [of "data ! (?m + 2)"] uint_byte_bounds [of "data ! (?m + 3)"]]
  have ge: "2 ^ 31 \<le> declared" unfolding v using assms(4) by (rule rng(3))
  have lt: "declared < 2 ^ 32" unfolding v by (rule rng(2))
  have neg: "declared - 2 ^ 32 < 0" using lt by simp
  have "decodeLength data (off + 1) = Inr (ToInt32 declared, 5)"
    using decodeLength_four_bytes [of data "off + 1"] assms(2,5,6) n by simp
  then have d: "decodeLength data (off + 1) = Inr (declared - 2 ^ 32, 5)"
    using ToInt32_big [OF ge lt] by simp
  have fits: "off + 1 + 5 + (declared - 2 ^ 32) \<le> int (length data)"
    using neg assms(5) by linarith
  have int: "tag = 0x02 \<Longrightarrow> \<exists>v. decodeInteger data off = Inr (v, 6 + (declared - 2 ^ 32))"
    using decodeInteger_value [OF _ d fits] assms(1) by simp
  have seq: "tag = 0x30 \<Longrightarrow> decodeSequence data off = Some (Inr ([], 6 + (declared - 2 ^ 32)))"
  proof -
    assume "tag = 0x30"
    then have g: "get data off = Some 0x30" using assms(1) by simp
    have "elements_loop data (off + 1 + 5 + (declared - 2 ^ 32)) (off + 1 + 5) [] = Some (Inr [])"
      using neg by (intro elements_loop_stop) linarith
    then show ?thesis using decodeSequence_content [OF g d fits] by simp
  qed
  show ?thesis using ge neg d int seq by blast
qed

text \<open>An instance: the length bytes \<open>80 00 00 00\<close> are read as \<open>-2^31\<close>.\<close>

theorem decodeLength_negative_length_witness:
  "decodeLength [0x02, 0x84, 0x80, 0, 0, 0] 1 = Inr (- 2147483648, 5)
   \<and> (\<exists>v. decodeInteger [0x02, 0x84, 0x80, 0, 0, 0] 0 = Inr (v, - 2147483642))"
  using decodeLength_negative_length [of "[0x02, 0x84, 0x80, 0, 0, 0]" 0 "0x02" "0x80" "2147483648"]
  by (simp add: get_def be_value_def)

end
